theory Spec2Isabelle
  imports Main "HOL-Library.Word"
begin

unbundle bit_operations_syntax

section \<open>JavaScript primitives used by the policy module\<close>

text \<open>
  Strings are sequences of code units; the model keeps the code units below 256.
  The white space that \<open>parseInt\<close> and \<open>BigInt\<close> strip is, in that range, TAB, LF, VT,
  FF, CR, SP and NBSP.
\<close>

definition isWhiteSpace :: "char \<Rightarrow> bool" where
  "isWhiteSpace c \<longleftrightarrow>
     c \<in> set [CHR 0x09, CHR 0x0A, CHR 0x0B, CHR 0x0C, CHR 0x0D, CHR 0x20, CHR 0xA0]"

definition digitVal :: "char \<Rightarrow> nat option" where
  "digitVal c =
     (let n = (of_char c :: nat) in
      if 48 \<le> n \<and> n \<le> 57 then Some (n - 48)
      else if 97 \<le> n \<and> n \<le> 122 then Some (n - 87)
      else if 65 \<le> n \<and> n \<le> 90 then Some (n - 55)
      else None)"

definition isRadixDigit :: "nat \<Rightarrow> char \<Rightarrow> bool" where
  "isRadixDigit R c = (case digitVal c of None \<Rightarrow> False | Some v \<Rightarrow> v < R)"

definition digitsVal :: "nat \<Rightarrow> string \<Rightarrow> nat" where
  "digitsVal R Z = foldl (\<lambda>a c. a * R + (case digitVal c of None \<Rightarrow> 0 | Some v \<Rightarrow> v)) 0 Z"

text \<open>
  \<open>parseInt(string, radix)\<close> of ECMAScript. The radix \<open>0\<close> stands for an omitted radix.
  The result is a number; \<open>None\<close> is \<open>NaN\<close>. The callers only compare the result with
  \<open>0\<close>, \<open>255\<close> and \<open>2^53 - 1\<close>, and test it for being an integer, which the exact integer
  decides as the rounded double does (\<open>-0\<close> compares as \<open>0\<close>).
\<close>

definition parseInt :: "string \<Rightarrow> nat \<Rightarrow> int option" where
  "parseInt inputString radix =
     (let S0 = dropWhile isWhiteSpace inputString;
          sign = (if S0 \<noteq> [] \<and> hd S0 = CHR ''-'' then - 1 else (1 :: int));
          S1 = (if S0 \<noteq> [] \<and> (hd S0 = CHR ''+'' \<or> hd S0 = CHR ''-'') then tl S0 else S0)
      in if radix \<noteq> 0 \<and> (radix < 2 \<or> 36 < radix) then None
         else
           let stripPrefix = (radix = 0 \<or> radix = 16);
               hex = (stripPrefix \<and> (take 2 S1 = ''0x'' \<or> take 2 S1 = ''0X''));
               S2 = (if hex then drop 2 S1 else S1);
               R = (if hex then 16 else if radix = 0 then 10 else radix);
               Z = takeWhile (isRadixDigit R) S2
           in if Z = [] then None else Some (sign * int (digitsVal R Z)))"

section \<open>The policy record and its schema\<close>

record policy =
  type :: string
  version :: string
  erc20Decimals :: string
  maxAmount :: string
  allowedTokens :: "string list"
  allowedRecipients :: "string list"


text \<open>
  A zod issue: the kind of the failed check and the path to the offending value. The
  \<open>custom\<close> kind carries the message that the schema gives to \<open>refine\<close>.
\<close>

datatype path_seg = Key string | Index nat

datatype issue_code = invalid_literal | invalid_string | custom string

datatype issue = Issue (issue_code: issue_code) (issue_path: "path_seg list")

text \<open>
  What the module can throw: a \<open>ZodError\<close> (with its list of issues) from the schema, or an
  error raised by the ethers library (its codes are not told apart).
\<close>

datatype error = ZodError "issue list" | EthersError

definition erc20Decimals_refine :: "string \<Rightarrow> bool" where
  "erc20Decimals_refine val =
     (case parseInt val 10 of None \<Rightarrow> False | Some num \<Rightarrow> num \<ge> 0 \<and> num \<le> 255)"

definition maxAmount_refine :: "string \<Rightarrow> bool" where
  "maxAmount_refine val =
     (case parseInt val 10 of None \<Rightarrow> False | Some num \<Rightarrow> num \<ge> 0)"

text \<open>
  Modelled from the spec: \<open>BaseEthereumAddressSchema\<close> is imported from the package
  \<open>@lit-protocol/aw-tool\<close>; it is the string pattern of a syntactically valid account
  address, the prefix \<open>0x\<close> followed by exactly 40 hexadecimal digits.
\<close>

definition BaseEthereumAddressSchema :: "string \<Rightarrow> bool" where
  "BaseEthereumAddressSchema s \<longleftrightarrow>
     take 2 s = ''0x'' \<and> length s = 42 \<and> list_all (isRadixDigit 16) (drop 2 s)"

text \<open>
  \<open>z.array(BaseEthereumAddressSchema)\<close> checks every element and reports each failure at
  the path \<open>[key, index]\<close>.
\<close>

definition addressArray_issues :: "string \<Rightarrow> string list \<Rightarrow> issue list" where
  "addressArray_issues key xs =
     concat (map (\<lambda>(i, a). if BaseEthereumAddressSchema a then []
                             else [Issue invalid_string [Key key, Index i]])
                 (enumerate 0 xs))"

text \<open>
  \<open>policySchema\<close>: the object schema visits its keys in the order of the declaration and
  collects the issues of all of them; \<open>version\<close> is any string.
\<close>

definition policySchema_issues :: "policy \<Rightarrow> issue list" where
  "policySchema_issues p =
     (if type p = ''ERC20Transfer'' then [] else [Issue invalid_literal [Key ''type'']]) @
     (if erc20Decimals_refine (erc20Decimals p) then []
      else [Issue (custom ''Invalid decimals format. Must be a non-negative integer not exceeding 255.'')
                  [Key ''erc20Decimals'']]) @
     (if maxAmount_refine (maxAmount p) then []
      else [Issue (custom ''Invalid amount format. Must be a positive integer.'')
                  [Key ''maxAmount'']]) @
     addressArray_issues ''allowedTokens'' (allowedTokens p) @
     addressArray_issues ''allowedRecipients'' (allowedRecipients p)"

definition policySchema_parse :: "policy \<Rightarrow> error + policy" where
  "policySchema_parse p =
     (let issues = policySchema_issues p
      in if issues = [] then Inr p else Inl (ZodError issues))"

text \<open>
  The checks of the specification, field by field in the order of the schema, and the
  first field that fails one.
\<close>

definition field_checks :: "policy \<Rightarrow> (string \<times> bool) list" where
  "field_checks p =
     [(''type'', type p = ''ERC20Transfer''),
      (''erc20Decimals'', erc20Decimals_refine (erc20Decimals p)),
      (''maxAmount'', maxAmount_refine (maxAmount p)),
      (''allowedTokens'', list_all BaseEthereumAddressSchema (allowedTokens p)),
      (''allowedRecipients'', list_all BaseEthereumAddressSchema (allowedRecipients p))]"

definition first_offending :: "policy \<Rightarrow> string option" where
  "first_offending p = map_option fst (find (\<lambda>(k, ok). \<not> ok) (field_checks p))"

section \<open>The ethers library: numbers, bytes and units\<close>

text \<open>
  The functions of this section model the parts of ethers (version 6) and of the
  JavaScript built-ins that \<open>encodePolicy\<close> and \<open>decodePolicy\<close> call. A \<open>bigint\<close> is an
  \<open>int\<close>, a \<open>Uint8Array\<close> a list of bytes.
\<close>

type_synonym byte = "8 word"

text \<open>\<open>bigint.toString()\<close>: the decimal numeral, with a minus sign for a negative value.\<close>

function show_nat :: "nat \<Rightarrow> string" where
  "show_nat n =
     (if n < 10 then [char_of (48 + n)]
      else show_nat (n div 10) @ [char_of (48 + n mod 10)])"
  by pat_completeness auto
termination
  by (relation "measure id") auto

declare show_nat.simps [simp del]

definition show_int :: "int \<Rightarrow> string" where
  "show_int i = (if i < 0 then CHR ''-'' # show_nat (nat (- i)) else show_nat (nat i))"

text \<open>
  \<open>BigInt(string)\<close>: white space is trimmed on both sides; the empty string is \<open>0\<close>; then a
  decimal numeral with an optional sign, or an unsigned numeral with one of the prefixes
  \<open>0x\<close>, \<open>0o\<close>, \<open>0b\<close>. \<open>None\<close> is the \<open>SyntaxError\<close>.
\<close>

definition allDigits :: "nat \<Rightarrow> string \<Rightarrow> int option" where
  "allDigits R s =
     (if s \<noteq> [] \<and> list_all (isRadixDigit R) s then Some (int (digitsVal R s)) else None)"

definition BigInt_string :: "string \<Rightarrow> int option" where
  "BigInt_string str =
     (let text = rev (dropWhile isWhiteSpace (rev (dropWhile isWhiteSpace str)))
      in if text = [] then Some 0
         else if take 2 text = ''0x'' \<or> take 2 text = ''0X'' then allDigits 16 (drop 2 text)
         else if take 2 text = ''0o'' \<or> take 2 text = ''0O'' then allDigits 8 (drop 2 text)
         else if take 2 text = ''0b'' \<or> take 2 text = ''0B'' then allDigits 2 (drop 2 text)
         else if hd text = CHR ''-'' then map_option uminus (allDigits 10 (tl text))
         else if hd text = CHR ''+'' then allDigits 10 (tl text)
         else allDigits 10 text)"

text \<open>
  \<open>getBigInt\<close> on a string: the empty string is refused, a leading minus that is not
  followed by a second one is taken off before \<open>BigInt\<close> reads the rest.
\<close>

definition getBigInt :: "string \<Rightarrow> error + int" where
  "getBigInt value =
     (if value = [] then Inl EthersError
      else if hd value = CHR ''-'' \<and> take 1 (tl value) \<noteq> ''-'' then
        (case BigInt_string (tl value) of None \<Rightarrow> Inl EthersError | Some v \<Rightarrow> Inr (- v))
      else
        (case BigInt_string value of None \<Rightarrow> Inl EthersError | Some v \<Rightarrow> Inr v))"

text \<open>
  \<open>getNumber\<close> on a number: it must be an integer (not \<open>NaN\<close>) within the safe range.
\<close>

definition maxValue :: int where
  "maxValue = 9007199254740991"

definition getNumber :: "int option \<Rightarrow> error + int" where
  "getNumber value =
     (case value of
        None \<Rightarrow> Inl EthersError
      | Some v \<Rightarrow> if - maxValue \<le> v \<and> v \<le> maxValue then Inr v else Inl EthersError)"

text \<open>
  \<open>FixedNumber.fromString(value, {decimals, width: 512})\<close>, which is all of
  \<open>parseUnits\<close> once the unit is a number. The value must match
  \<open>/^(-?)([0-9]*)\.?([0-9]*)$/\<close> with a digit in it; the format allows at most 80 decimals;
  the fraction is padded with blocks of zeros (the constant \<open>Zeros\<close> of the library,
  \<open>"0000"\<close> doubled until it has at least 80 characters), must not have a non-zero digit beyond
  the decimals, and is cut to them; the result must fit 512 signed bits.
\<close>

definition Zeros :: string where
  "Zeros = replicate 128 CHR ''0''"

function padZeros :: "nat \<Rightarrow> string \<Rightarrow> string" where
  "padZeros n decimal =
     (if length decimal < n then padZeros n (decimal @ Zeros) else decimal)"
  by pat_completeness auto
termination
  by (relation "measure (\<lambda>(n, decimal). n - length decimal)") (auto simp: Zeros_def)

declare padZeros.simps [simp del]

definition FixedNumber_fromString :: "string \<Rightarrow> int \<Rightarrow> error + int" where
  "FixedNumber_fromString value decimals =
     (let neg = (take 1 value = ''-'');
          s1 = (if neg then tl value else value);
          whole0 = takeWhile (isRadixDigit 10) s1;
          s2 = dropWhile (isRadixDigit 10) s1;
          s3 = (if take 1 s2 = ''.'' then tl s2 else s2);
          frac = takeWhile (isRadixDigit 10) s3;
          rest = dropWhile (isRadixDigit 10) s3
      in if rest \<noteq> [] \<or> length whole0 + length frac = 0 then Inl EthersError
         else if 80 < decimals then Inl EthersError
         else
           let n = nat decimals;
               whole = (if whole0 = [] then ''0'' else whole0);
               decimal = padZeros n frac
           in if \<not> list_all (\<lambda>c. c = CHR ''0'') (drop n decimal) then Inl EthersError
              else
                (case BigInt_string ((if neg then ''-'' else []) @ whole @ take n decimal) of
                   None \<Rightarrow> Inl EthersError
                 | Some v \<Rightarrow>
                     if - (2 ^ 511) \<le> v \<and> v < 2 ^ 511 then Inr v else Inl EthersError))"

definition parseUnits :: "string \<Rightarrow> int option \<Rightarrow> error + int" where
  "parseUnits value unit =
     (case getNumber unit of
        Inl e \<Rightarrow> Inl e
      | Inr decimals \<Rightarrow> FixedNumber_fromString value decimals)"

text \<open>
  Bytes and hexadecimal strings: \<open>hexlify\<close>, \<open>getBytes\<close> (the string must match
  \<open>/^0x([0-9a-f][0-9a-f])*$/i\<close>) and \<open>toBigInt\<close> (big-endian).
\<close>

definition hexDigit :: "nat \<Rightarrow> char" where
  "hexDigit n = (if n < 10 then char_of (48 + n) else char_of (87 + n))"

definition hexByte :: "byte \<Rightarrow> string" where
  "hexByte b = [hexDigit (unat b div 16), hexDigit (unat b mod 16)]"

definition hexlify :: "byte list \<Rightarrow> string" where
  "hexlify bs = ''0x'' @ concat (map hexByte bs)"

fun hexPairs :: "string \<Rightarrow> byte list option" where
  "hexPairs [] = Some []"
| "hexPairs [c] = None"
| "hexPairs (c # d # cs) =
     (if isRadixDigit 16 c \<and> isRadixDigit 16 d then
        map_option (\<lambda>bs. of_nat (digitsVal 16 [c, d]) # bs) (hexPairs cs)
      else None)"

definition getBytes :: "string \<Rightarrow> error + byte list" where
  "getBytes value =
     (if take 2 value = ''0x'' \<or> take 2 value = ''0X'' then
        (case hexPairs (drop 2 value) of None \<Rightarrow> Inl EthersError | Some bs \<Rightarrow> Inr bs)
      else Inl EthersError)"

definition toBigInt :: "byte list \<Rightarrow> nat" where
  "toBigInt bs = foldl (\<lambda>a b. a * 256 + unat b) 0 bs"

text \<open>
  The \<open>Writer\<close> turns a value into one word of 32 bytes, big-endian and padded with zeros
  on the left; a value of more than 32 bytes is out of bounds.
\<close>

fun toBeBytes :: "nat \<Rightarrow> nat \<Rightarrow> byte list" where
  "toBeBytes 0 v = []"
| "toBeBytes (Suc k) v = toBeBytes k (v div 256) @ [of_nat (v mod 256)]"

definition WordSize :: nat where
  "WordSize = 32"

definition getValue :: "nat \<Rightarrow> error + byte list" where
  "getValue v = (if v < 2 ^ 256 then Inr (toBeBytes WordSize v) else Inl EthersError)"

section \<open>The ethers library: addresses\<close>

text \<open>
  Keccak-256, which \<open>getChecksumAddress\<close> applies to the 40 characters of an address:
  the permutation Keccak-f[1600] on 25 lanes of 64 bits (the lane \<open>(x, y)\<close> at index
  \<open>x + 5 * y\<close>), the rate of 136 bytes and the padding \<open>0x01 .. 0x80\<close>.
\<close>

type_synonym lane = "64 word"

definition keccak_rotc :: "nat list" where
  "keccak_rotc =
     [0, 1, 62, 28, 27, 36, 44, 6, 55, 20, 3, 10, 43, 25, 39, 41, 45, 15, 21, 8,
      18, 2, 61, 56, 14]"

definition keccak_rc :: "lane list" where
  "keccak_rc =
     [0x0000000000000001, 0x0000000000008082, 0x800000000000808A, 0x8000000080008000,
      0x000000000000808B, 0x0000000080000001, 0x8000000080008081, 0x8000000000008009,
      0x000000000000008A, 0x0000000000000088, 0x0000000080008009, 0x000000008000000A,
      0x000000008000808B, 0x800000000000008B, 0x8000000000008089, 0x8000000000008003,
      0x8000000000008002, 0x8000000000000080, 0x000000000000800A, 0x800000008000000A,
      0x8000000080008081, 0x8000000000008080, 0x0000000080000001, 0x8000000080008008]"

definition keccak_theta :: "lane list \<Rightarrow> lane list" where
  "keccak_theta A =
     (let C = map (\<lambda>x. A ! x XOR A ! (x + 5) XOR A ! (x + 10) XOR A ! (x + 15) XOR A ! (x + 20))
                  [0..<5];
          D = map (\<lambda>x. C ! ((x + 4) mod 5) XOR word_rotl 1 (C ! ((x + 1) mod 5))) [0..<5]
      in map (\<lambda>i. A ! i XOR D ! (i mod 5)) [0..<25])"

definition keccak_rho_pi :: "lane list \<Rightarrow> lane list" where
  "keccak_rho_pi A =
     map (\<lambda>i. let X = i mod 5; Y = i div 5; x = (X + 3 * Y) mod 5
               in word_rotl (keccak_rotc ! (x + 5 * X)) (A ! (x + 5 * X)))
         [0..<25]"

definition keccak_chi :: "lane list \<Rightarrow> lane list" where
  "keccak_chi B =
     map (\<lambda>i. let x = i mod 5; y = i div 5
               in B ! i XOR (NOT (B ! ((x + 1) mod 5 + 5 * y)) AND B ! ((x + 2) mod 5 + 5 * y)))
         [0..<25]"

definition keccak_round :: "lane list \<Rightarrow> lane \<Rightarrow> lane list" where
  "keccak_round A rc = (let E = keccak_chi (keccak_rho_pi (keccak_theta A)) in E[0 := E ! 0 XOR rc])"

definition keccak_f :: "lane list \<Rightarrow> lane list" where
  "keccak_f A = foldl keccak_round A keccak_rc"

definition lane_of_bytes :: "byte list \<Rightarrow> lane" where
  "lane_of_bytes bs = foldr (\<lambda>b acc. ucast b OR push_bit 8 acc) bs 0"

definition bytes_of_lane :: "lane \<Rightarrow> byte list" where
  "bytes_of_lane w = map (\<lambda>k. ucast (drop_bit (8 * k) w)) [0..<8]"

definition keccak_pad :: "byte list \<Rightarrow> byte list" where
  "keccak_pad msg =
     (let q = 136 - length msg mod 136
      in if q = 1 then msg @ [0x81] else msg @ [0x01] @ replicate (q - 2) 0 @ [0x80])"

fun keccak_absorb :: "nat \<Rightarrow> lane list \<Rightarrow> byte list \<Rightarrow> lane list" where
  "keccak_absorb 0 A bs = A"
| "keccak_absorb (Suc k) A bs =
     (let block = map (\<lambda>j. lane_of_bytes (take 8 (drop (8 * j) bs))) [0..<17] @ replicate 8 0
      in keccak_absorb k (keccak_f (map (\<lambda>(a, b). a XOR b) (zip A block))) (drop 136 bs))"

definition keccak256 :: "byte list \<Rightarrow> byte list" where
  "keccak256 msg =
     (let padded = keccak_pad msg;
          A = keccak_absorb (length padded div 136) (replicate 25 0) padded
      in concat (map bytes_of_lane (take 4 A)))"

text \<open>
  \<open>toLowerCase\<close> and \<open>toUpperCase\<close>, on the letters A to Z (the strings they are applied
  to here consist of hexadecimal digits and the prefix).
\<close>

definition toLowerChar :: "char \<Rightarrow> char" where
  "toLowerChar c =
     (let n = (of_char c :: nat) in if 65 \<le> n \<and> n \<le> 90 then char_of (n + 32) else c)"

definition toUpperChar :: "char \<Rightarrow> char" where
  "toUpperChar c =
     (let n = (of_char c :: nat) in if 97 \<le> n \<and> n \<le> 122 then char_of (n - 32) else c)"

definition toLowerCase :: "string \<Rightarrow> string" where
  "toLowerCase s = map toLowerChar s"

text \<open>
  \<open>getChecksumAddress\<close>: the address in lower case, the character \<open>i\<close> of its 40 digits
  in upper case where the nibble \<open>i\<close> of the hash of those 40 characters is 8 or more.
\<close>

definition hashNibble :: "byte list \<Rightarrow> nat \<Rightarrow> nat" where
  "hashNibble hashed i =
     (if even i then unat (hashed ! (i div 2)) div 16 else unat (hashed ! (i div 2)) mod 16)"

definition getChecksumAddress :: "string \<Rightarrow> string" where
  "getChecksumAddress address =
     (let chars = take 40 (drop 2 (toLowerCase address));
          hashed = keccak256 (map of_char chars)
      in ''0x'' @ map (\<lambda>(i, c). if hashNibble hashed i \<ge> 8 then toUpperChar c else c)
                       (enumerate 0 chars))"

text \<open>
  \<open>getAddress\<close>: a string of 40 hexadecimal digits, with or without the prefix \<open>0x\<close>, is
  returned in its checksum spelling; when it mixes upper-case and lower-case letters it
  must already be that spelling. The other accepted form, an ICAP address, starts with
  \<open>XE\<close>; the strings that reach \<open>getAddress\<close> from this module start with \<open>0x\<close>, so that
  branch is left out and the string refused.
\<close>

definition isUpperHex :: "char \<Rightarrow> bool" where
  "isUpperHex c \<longleftrightarrow> c \<in> set ''ABCDEF''"

definition isLowerHex :: "char \<Rightarrow> bool" where
  "isLowerHex c \<longleftrightarrow> c \<in> set ''abcdef''"

definition mixedCase :: "string \<Rightarrow> bool" where
  "mixedCase s \<longleftrightarrow> list_ex isUpperHex s \<and> list_ex isLowerHex s"

definition getAddress :: "string \<Rightarrow> error + string" where
  "getAddress address =
     (let body = (if take 2 address = ''0x'' then drop 2 address else address)
      in if length body = 40 \<and> list_all (isRadixDigit 16) body then
           let address' = ''0x'' @ body;
               result = getChecksumAddress address'
           in if mixedCase address' \<and> result \<noteq> address' then Inl EthersError
              else Inr result
         else Inl EthersError)"

section \<open>The ethers library: ABI encoding\<close>

text \<open>
  \<open>pack\<close> lays out the encodings of the children of a tuple or an array: a static child
  goes into the head as it is, a dynamic child into the tail, with its offset from the
  start of the head, one word, in its place in the head. An item is the flag
  \<open>coder.dynamic\<close> and the bytes the child wrote.
\<close>

definition staticLength :: "(bool \<times> byte list) list \<Rightarrow> nat" where
  "staticLength items =
     sum_list (map (\<lambda>(dyn, bs). if dyn then WordSize else length bs) items)"

fun pack_head :: "nat \<Rightarrow> nat \<Rightarrow> (bool \<times> byte list) list \<Rightarrow> error + byte list" where
  "pack_head base dynamicOffset [] = Inr []"
| "pack_head base dynamicOffset ((dyn, bs) # items) =
     (if dyn then
        (case getValue (base + dynamicOffset) of
           Inl e \<Rightarrow> Inl e
         | Inr w \<Rightarrow>
             (case pack_head base (dynamicOffset + length bs) items of
                Inl e \<Rightarrow> Inl e
              | Inr r \<Rightarrow> Inr (w @ r)))
      else
        (case pack_head base dynamicOffset items of
           Inl e \<Rightarrow> Inl e
         | Inr r \<Rightarrow> Inr (bs @ r)))"

definition pack :: "(bool \<times> byte list) list \<Rightarrow> error + byte list" where
  "pack items =
     (case pack_head (staticLength items) 0 items of
        Inl e \<Rightarrow> Inl e
      | Inr head \<Rightarrow> Inr (head @ concat (map snd (filter fst items))))"

text \<open>The children are encoded in order; the first error is the one thrown.\<close>

fun collect :: "(error + 'a) list \<Rightarrow> error + 'a list" where
  "collect [] = Inr []"
| "collect (r # rs) =
     (case r of
        Inl e \<Rightarrow> Inl e
      | Inr x \<Rightarrow> (case collect rs of Inl e \<Rightarrow> Inl e | Inr xs \<Rightarrow> Inr (x # xs)))"

text \<open>
  \<open>NumberCoder\<close> for \<open>uint\<close> of \<open>sz\<close> bytes: the value, here a string, goes through
  \<open>getBigInt\<close> and must lie between 0 and \<open>2^(8 * sz) - 1\<close>.
\<close>

definition NumberCoder_encode :: "nat \<Rightarrow> string \<Rightarrow> error + byte list" where
  "NumberCoder_encode sz value =
     (case getBigInt value of
        Inl e \<Rightarrow> Inl e
      | Inr v \<Rightarrow>
          if v < 0 \<or> v > 2 ^ (8 * sz) - 1 then Inl EthersError else getValue (nat v))"

text \<open>
  \<open>AddressCoder\<close>: \<open>getAddress\<close>, then the checksum spelling is written as a number.
\<close>

definition AddressCoder_encode :: "string \<Rightarrow> error + byte list" where
  "AddressCoder_encode value =
     (case getAddress value of
        Inl e \<Rightarrow> Inl e
      | Inr a \<Rightarrow>
          (case getBigInt a of
             Inl e \<Rightarrow> Inl e
           | Inr v \<Rightarrow> if v < 0 then Inl EthersError else getValue (nat v)))"

text \<open>\<open>ArrayCoder\<close> for \<open>address[]\<close>: the length, then the elements packed.\<close>

definition ArrayCoder_encode :: "string list \<Rightarrow> error + byte list" where
  "ArrayCoder_encode values =
     (case getValue (length values) of
        Inl e \<Rightarrow> Inl e
      | Inr len \<Rightarrow>
          (case collect (map AddressCoder_encode values) of
             Inl e \<Rightarrow> Inl e
           | Inr ws \<Rightarrow>
               (case pack (map (Pair False) ws) of
                  Inl e \<Rightarrow> Inl e
                | Inr body \<Rightarrow> Inr (len @ body))))"

text \<open>
  \<open>TupleCoder\<close> for
  \<open>tuple(uint8 erc20Decimals, uint256 maxAmount, address[] allowedTokens, address[] allowedRecipients)\<close>.
\<close>

definition TupleCoder_encode :: "string \<times> string \<times> string list \<times> string list \<Rightarrow> error + byte list" where
  "TupleCoder_encode v =
     (case v of (decimals, amount, tokens, recipients) \<Rightarrow>
        (case NumberCoder_encode 1 decimals of
           Inl e \<Rightarrow> Inl e
         | Inr a \<Rightarrow>
             (case NumberCoder_encode 32 amount of
                Inl e \<Rightarrow> Inl e
              | Inr b \<Rightarrow>
                  (case ArrayCoder_encode tokens of
                     Inl e \<Rightarrow> Inl e
                   | Inr c \<Rightarrow>
                       (case ArrayCoder_encode recipients of
                          Inl e \<Rightarrow> Inl e
                        | Inr d \<Rightarrow> pack [(False, a), (False, b), (True, c), (True, d)])))))"

text \<open>
  \<open>abiCoder.encode([type], [value])\<close>: the list of types is itself packed as a tuple, whose
  one child, the policy tuple, is dynamic; the result is the bytes in hexadecimal.
\<close>

definition abiCoder_encode_bytes :: "string \<times> string \<times> string list \<times> string list \<Rightarrow> error + byte list" where
  "abiCoder_encode_bytes v =
     (case TupleCoder_encode v of
        Inl e \<Rightarrow> Inl e
      | Inr t \<Rightarrow> pack [(True, t)])"

definition abiCoder_encode :: "string \<times> string \<times> string list \<times> string list \<Rightarrow> error + string" where
  "abiCoder_encode v =
     (case abiCoder_encode_bytes v of Inl e \<Rightarrow> Inl e | Inr bs \<Rightarrow> Inr (hexlify bs))"

section \<open>encodePolicy\<close>

text \<open>
  The schema is applied first; then the amount is scaled by \<open>parseUnits\<close>, with
  \<open>parseInt(policy.erc20Decimals)\<close> (no radix) as the unit, and written back as a string;
  then the tuple is encoded.
\<close>

definition encodePolicy :: "policy \<Rightarrow> error + string" where
  "encodePolicy policy =
     (case policySchema_parse policy of
        Inl e \<Rightarrow> Inl e
      | Inr _ \<Rightarrow>
          (case parseUnits (maxAmount policy) (parseInt (erc20Decimals policy) 0) of
             Inl e \<Rightarrow> Inl e
           | Inr scaled \<Rightarrow>
               abiCoder_encode
                 (erc20Decimals policy, show_int scaled,
                  allowedTokens policy, allowedRecipients policy)))"

section \<open>The ethers library: ABI decoding\<close>

text \<open>
  A \<open>Reader\<close> is the data and a cursor. Reading a word beyond the end of the data is an
  error; \<open>readIndex\<close> also wants the word to be a safe integer; \<open>subReader\<close> starts a new
  reader at an offset from the cursor. (The reader also counts the bytes read, to refuse
  data that is read more than 1024 times its length; with this tuple fewer than
  \<open>224 + 2 * length\<close> bytes are read, so that the count is left out.)
\<close>

record Reader =
  data :: "byte list"
  offset :: nat

definition readBytes :: "Reader \<Rightarrow> error + byte list \<times> Reader" where
  "readBytes r =
     (if offset r + WordSize > length (data r) then Inl EthersError
      else Inr (take WordSize (drop (offset r) (data r)), r\<lparr>offset := offset r + WordSize\<rparr>))"

definition readValue :: "Reader \<Rightarrow> error + nat \<times> Reader" where
  "readValue r =
     (case readBytes r of Inl e \<Rightarrow> Inl e | Inr (bytes, r') \<Rightarrow> Inr (toBigInt bytes, r'))"

definition readIndex :: "Reader \<Rightarrow> error + nat \<times> Reader" where
  "readIndex r =
     (case readValue r of
        Inl e \<Rightarrow> Inl e
      | Inr (v, r') \<Rightarrow>
          (case getNumber (Some (int v)) of Inl e \<Rightarrow> Inl e | Inr n \<Rightarrow> Inr (nat n, r')))"

definition subReader :: "Reader \<Rightarrow> nat \<Rightarrow> Reader" where
  "subReader r off = \<lparr>data = drop (offset r + off) (data r), offset = 0\<rparr>"

text \<open>\<open>NumberCoder.decode\<close> masks the word to the size of the type.\<close>

definition NumberCoder_decode :: "nat \<Rightarrow> Reader \<Rightarrow> error + nat \<times> Reader" where
  "NumberCoder_decode sz r =
     (case readValue r of
        Inl e \<Rightarrow> Inl e
      | Inr (v, r') \<Rightarrow> Inr (v mod 2 ^ (8 * sz), r'))"

text \<open>
  \<open>toBeHex(value, width)\<close>: the value in hexadecimal, padded to \<open>width\<close> bytes, which it
  must not exceed. \<open>AddressCoder.decode\<close> is \<open>getAddress(toBeHex(reader.readValue(), 20))\<close>.
\<close>

definition toBeHex :: "nat \<Rightarrow> nat \<Rightarrow> error + string" where
  "toBeHex v width =
     (if v < 2 ^ (8 * width) then Inr (hexlify (toBeBytes width v)) else Inl EthersError)"

definition AddressCoder_decode :: "Reader \<Rightarrow> error + string \<times> Reader" where
  "AddressCoder_decode r =
     (case readValue r of
        Inl e \<Rightarrow> Inl e
      | Inr (v, r') \<Rightarrow>
          (case toBeHex v 20 of
             Inl e \<Rightarrow> Inl e
           | Inr h \<Rightarrow> (case getAddress h of Inl e \<Rightarrow> Inl e | Inr a \<Rightarrow> Inr (a, r'))))"

text \<open>
  \<open>unpack\<close> for \<open>count\<close> static address coders reads the elements one after the other. An
  error of a child that is not a buffer overrun is kept in the result and thrown when the
  value is taken out, which \<open>decodePolicy\<close> does for every value, so that here any error
  of a child is the error of the whole.
\<close>

fun unpack_addresses :: "nat \<Rightarrow> Reader \<Rightarrow> error + string list \<times> Reader" where
  "unpack_addresses 0 r = Inr ([], r)"
| "unpack_addresses (Suc count) r =
     (case AddressCoder_decode r of
        Inl e \<Rightarrow> Inl e
      | Inr (a, r') \<Rightarrow>
          (case unpack_addresses count r' of
             Inl e \<Rightarrow> Inl e
           | Inr (as, r'') \<Rightarrow> Inr (a # as, r'')))"

text \<open>
  \<open>ArrayCoder.decode\<close> for \<open>address[]\<close>: the count, the check that the data of the reader
  has at least one word for each element, then the elements.
\<close>

definition ArrayCoder_decode :: "Reader \<Rightarrow> error + string list" where
  "ArrayCoder_decode r =
     (case readIndex r of
        Inl e \<Rightarrow> Inl e
      | Inr (count, r') \<Rightarrow>
          if count * WordSize \<le> length (data r') then
            (case unpack_addresses count r' of Inl e \<Rightarrow> Inl e | Inr (as, _) \<Rightarrow> Inr as)
          else Inl EthersError)"

text \<open>
  \<open>unpack\<close> for the four coders of the policy tuple: the two numbers from the head, and
  each array at its offset from the start of the tuple.
\<close>

definition TupleCoder_decode :: "Reader \<Rightarrow> error + nat \<times> nat \<times> string list \<times> string list" where
  "TupleCoder_decode r =
     (let baseReader = subReader r 0 in
      case NumberCoder_decode 1 r of
        Inl e \<Rightarrow> Inl e
      | Inr (decimals, r1) \<Rightarrow>
      (case NumberCoder_decode 32 r1 of
        Inl e \<Rightarrow> Inl e
      | Inr (amount, r2) \<Rightarrow>
      (case readIndex r2 of
        Inl e \<Rightarrow> Inl e
      | Inr (off1, r3) \<Rightarrow>
      (case ArrayCoder_decode (subReader baseReader off1) of
        Inl e \<Rightarrow> Inl e
      | Inr tokens \<Rightarrow>
      (case readIndex r3 of
        Inl e \<Rightarrow> Inl e
      | Inr (off2, r4) \<Rightarrow>
      (case ArrayCoder_decode (subReader baseReader off2) of
        Inl e \<Rightarrow> Inl e
      | Inr recipients \<Rightarrow> Inr (decimals, amount, tokens, recipients)))))))"

text \<open>
  \<open>abiCoder.decode([type], data)[0]\<close>: the data in hexadecimal is turned into bytes, the
  offset of the policy tuple is read and the tuple decoded there.
\<close>

definition abiCoder_decode_bytes :: "byte list \<Rightarrow> error + nat \<times> nat \<times> string list \<times> string list" where
  "abiCoder_decode_bytes bytes =
     (let reader = \<lparr>data = bytes, offset = 0\<rparr>;
          baseReader = subReader reader 0
      in case readIndex reader of
           Inl e \<Rightarrow> Inl e
         | Inr (off, _) \<Rightarrow> TupleCoder_decode (subReader baseReader off))"

definition abiCoder_decode :: "string \<Rightarrow> error + nat \<times> nat \<times> string list \<times> string list" where
  "abiCoder_decode encoded =
     (case getBytes encoded of Inl e \<Rightarrow> Inl e | Inr bytes \<Rightarrow> abiCoder_decode_bytes bytes)"

section \<open>decodePolicy\<close>

text \<open>
  The decoded numbers are written as decimal strings, \<open>type\<close> and \<open>version\<close> are set to
  their constants, and the record goes through the schema.
\<close>

definition decodePolicy :: "string \<Rightarrow> error + policy" where
  "decodePolicy encodedPolicy =
     (case abiCoder_decode encodedPolicy of
        Inl e \<Rightarrow> Inl e
      | Inr (decimals, amount, tokens, recipients) \<Rightarrow>
          policySchema_parse
            \<lparr>type = ''ERC20Transfer'', version = ''1.0.0'',
             erc20Decimals = show_int (int decimals), maxAmount = show_int (int amount),
             allowedTokens = tokens, allowedRecipients = recipients\<rparr>)"

section \<open>Sample records\<close>

text \<open>The record of the specification's encoding example.\<close>

definition sample_policy :: policy where
  "sample_policy =
     \<lparr>type = ''ERC20Transfer'', version = ''1.0.0'', erc20Decimals = ''18'', maxAmount = ''1'',
      allowedTokens = [''0xAAAAAAAAAAAAAAAAAAAAAAAAAAAAAAAAAAAAAAAA''],
      allowedRecipients = [''0xBBBBBBBBBBBBBBBBBBBBBBBBBBBBBBBBBBBBBBBB'']\<rparr>"

text \<open>The sample record with an amount that has a fraction.\<close>

definition fraction_policy :: policy where
  "fraction_policy = sample_policy\<lparr>maxAmount := ''1.5''\<rparr>"





text \<open>The policy with no decimals, no amount and no addresses.\<close>

definition empty_policy :: policy where
  "empty_policy =
     \<lparr>type = ''ERC20Transfer'', version = ''1.0.0'', erc20Decimals = ''0'', maxAmount = ''0'',
      allowedTokens = [], allowedRecipients = []\<rparr>"

text \<open>A string is a plain decimal numeral when it is a non-empty run of the digits 0 to 9.\<close>

definition isDecimalNumeral :: "string \<Rightarrow> bool" where
  "isDecimalNumeral s \<longleftrightarrow> s \<noteq> [] \<and> list_all (isRadixDigit 10) s"

text \<open>The number that an address string stands for: its 40 digits read in base 16.\<close>

definition addressValue :: "string \<Rightarrow> nat" where
  "addressValue a = digitsVal 16 (drop 2 a)"

text \<open>
  An address passes \<open>getAddress\<close> unless it mixes upper-case and lower-case letters
  without being its own checksum spelling.
\<close>

definition checksum_ok :: "string \<Rightarrow> bool" where
  "checksum_ok a \<longleftrightarrow> \<not> (mixedCase a \<and> getChecksumAddress a \<noteq> a)"

text \<open>
  The standard ABI encoding of the argument list
  \<open>[tuple(uint8, uint256, address[], address[])]\<close>, in words of 32 bytes: the offset of
  the tuple; the head of the tuple, that is the two numbers and the offsets of the two
  arrays from the start of the tuple; then each array, its length followed by one word
  for each address.
\<close>

definition abi_array :: "nat list \<Rightarrow> byte list" where
  "abi_array vs = toBeBytes 32 (length vs) @ concat (map (toBeBytes 32) vs)"

definition abi_layout :: "nat \<Rightarrow> nat \<Rightarrow> nat list \<Rightarrow> nat list \<Rightarrow> byte list" where
  "abi_layout d m ts rs =
     toBeBytes 32 32 @ toBeBytes 32 d @ toBeBytes 32 m @
     toBeBytes 32 128 @ toBeBytes 32 (160 + 32 * length ts) @
     abi_array ts @ abi_array rs"

text \<open>
  \<open>decode(encode(p))\<close> of the specification, and the bytes that the string returned by
  \<open>encodePolicy\<close> stands for.
\<close>

definition roundtrip :: "policy \<Rightarrow> error + policy" where
  "roundtrip p = (case encodePolicy p of Inl e \<Rightarrow> Inl e | Inr s \<Rightarrow> decodePolicy s)"

definition encodePolicy_bytes :: "policy \<Rightarrow> error + byte list" where
  "encodePolicy_bytes p = (case encodePolicy p of Inl e \<Rightarrow> Inl e | Inr s \<Rightarrow> getBytes s)"



text \<open>The word of 32 bytes at an offset of a byte sequence, as a number.\<close>

definition wordAt :: "byte list \<Rightarrow> nat \<Rightarrow> nat" where
  "wordAt bs k = toBigInt (take 32 (drop k bs))"

text \<open>
  A byte sequence with a malformed length prefix: the head of an empty policy whose two
  array offsets point at a length word 1 that no element follows.
\<close>

definition bad_length_prefix :: "byte list" where
  "bad_length_prefix =
     toBeBytes 32 32 @ toBeBytes 32 0 @ toBeBytes 32 0 @ toBeBytes 32 128 @ toBeBytes 32 128 @
     toBeBytes 32 1"

text \<open>
  The words that the layout of the policy tuple calls for lie inside the data: the word of
  the offset of the tuple, the four words of its head at that offset, and for each array,
  at its offset from the start of the tuple, the word of its length and one word for each
  element that the length announces.
\<close>

definition words_in_bounds :: "byte list \<Rightarrow> bool" where
  "words_in_bounds bs =
     (let off = wordAt bs 0; o1 = wordAt bs (off + 64); o2 = wordAt bs (off + 96)
      in off + 128 \<le> length bs \<and>
         off + o1 + 32 + 32 * wordAt bs (off + o1) \<le> length bs \<and>
         off + o2 + 32 + 32 * wordAt bs (off + o2) \<le> length bs)"

text \<open>
  The byte sequences that the decoder of the policy tuple can read: the words it calls for
  lie inside the data, the offsets and the lengths are safe integers (at most \<open>2^53 - 1\<close>),
  and the word of each element of the two arrays is a number of at most 160 bits.
\<close>

definition address_words :: "byte list \<Rightarrow> nat \<Rightarrow> nat \<Rightarrow> bool" where
  "address_words bs k n \<longleftrightarrow> list_all (\<lambda>i. wordAt bs (k + 32 * i) < 2 ^ 160) [0..<n]"

definition layout_readable :: "byte list \<Rightarrow> bool" where
  "layout_readable bs =
     (let off = wordAt bs 0; o1 = wordAt bs (off + 64); o2 = wordAt bs (off + 96);
          n1 = wordAt bs (off + o1); n2 = wordAt bs (off + o2)
      in words_in_bounds bs \<and>
         int off \<le> maxValue \<and> int o1 \<le> maxValue \<and> int o2 \<le> maxValue \<and>
         int n1 \<le> maxValue \<and> int n2 \<le> maxValue \<and>
         address_words bs (off + o1 + 32) n1 \<and> address_words bs (off + o2 + 32) n2)"

section \<open>Validation\<close>

lemma enum_issues_Nil_iff:
  "concat (map (\<lambda>(i, a). if BaseEthereumAddressSchema a then []
                             else [Issue invalid_string [Key key, Index i]])
                 (enumerate n xs)) = [] \<longleftrightarrow> list_all BaseEthereumAddressSchema xs"
  by (induction xs arbitrary: n) auto

lemma addressArray_issues_Nil_iff:
  "addressArray_issues key xs = [] \<longleftrightarrow> list_all BaseEthereumAddressSchema xs"
  unfolding addressArray_issues_def by (rule enum_issues_Nil_iff)

lemma addressArray_issues_path:
  "i \<in> set (addressArray_issues key xs) \<Longrightarrow> \<exists>j. i = Issue invalid_string [Key key, Index j]"
  unfolding addressArray_issues_def by (auto split: if_splits)

lemma addressArray_issues_hd:
  assumes "\<not> list_all BaseEthereumAddressSchema xs"
  shows "\<exists>j rest. addressArray_issues key xs = Issue invalid_string [Key key, Index j] # rest"
proof -
  from assms have "addressArray_issues key xs \<noteq> []"
    by (simp add: addressArray_issues_Nil_iff)
  then obtain i rest where e: "addressArray_issues key xs = i # rest"
    by (cases "addressArray_issues key xs") auto
  then have "i \<in> set (addressArray_issues key xs)" by simp
  from addressArray_issues_path[OF this] e show ?thesis by auto
qed

lemma policySchema_parse_Inr_iff:
  "policySchema_parse p = Inr q \<longleftrightarrow>
     q = p \<and> type p = ''ERC20Transfer'' \<and> erc20Decimals_refine (erc20Decimals p) \<and>
     maxAmount_refine (maxAmount p) \<and> list_all BaseEthereumAddressSchema (allowedTokens p) \<and>
     list_all BaseEthereumAddressSchema (allowedRecipients p)"
  by (auto simp: policySchema_parse_def policySchema_issues_def Let_def addressArray_issues_Nil_iff)

lemma first_issue_names_first_offending:
  assumes "\<forall>q. policySchema_parse p \<noteq> Inr q"
  shows "\<exists>c k rest more.
           policySchema_parse p = Inl (ZodError (Issue c (Key k # rest) # more)) \<and>
           first_offending p = Some k"
proof -
  from assms have nv: "\<not> (type p = ''ERC20Transfer'' \<and> erc20Decimals_refine (erc20Decimals p) \<and>
     maxAmount_refine (maxAmount p) \<and> list_all BaseEthereumAddressSchema (allowedTokens p) \<and>
     list_all BaseEthereumAddressSchema (allowedRecipients p))"
    by (simp add: policySchema_parse_Inr_iff)
  consider (a) "type p \<noteq> ''ERC20Transfer''"
    | (b) "type p = ''ERC20Transfer''" "\<not> erc20Decimals_refine (erc20Decimals p)"
    | (c) "type p = ''ERC20Transfer''" "erc20Decimals_refine (erc20Decimals p)"
          "\<not> maxAmount_refine (maxAmount p)"
    | (d) "type p = ''ERC20Transfer''" "erc20Decimals_refine (erc20Decimals p)"
          "maxAmount_refine (maxAmount p)"
          "\<not> list_all BaseEthereumAddressSchema (allowedTokens p)"
    | (e) "type p = ''ERC20Transfer''" "erc20Decimals_refine (erc20Decimals p)"
          "maxAmount_refine (maxAmount p)"
          "list_all BaseEthereumAddressSchema (allowedTokens p)"
          "\<not> list_all BaseEthereumAddressSchema (allowedRecipients p)"
    using nv by blast
  then show ?thesis
  proof cases
    case a
    then show ?thesis
      by (simp add: policySchema_parse_def policySchema_issues_def first_offending_def
          field_checks_def)
  next
    case b
    then show ?thesis
      by (simp add: policySchema_parse_def policySchema_issues_def first_offending_def
          field_checks_def)
  next
    case c
    then show ?thesis
      by (simp add: policySchema_parse_def policySchema_issues_def first_offending_def
          field_checks_def)
  next
    case d
    from addressArray_issues_hd[OF d(4), of "''allowedTokens''"] d(1-4) show ?thesis
      by (auto simp: policySchema_parse_def policySchema_issues_def first_offending_def
          field_checks_def)
  next
    case e
    have t: "addressArray_issues ''allowedTokens'' (allowedTokens p) = []"
      using e(4) by (simp add: addressArray_issues_Nil_iff)
    from addressArray_issues_hd[OF e(5), of "''allowedRecipients''"] e(1-5) t show ?thesis
      by (auto simp: policySchema_parse_def policySchema_issues_def first_offending_def
          field_checks_def)
  qed
qed

lemma first_offending_None_iff:
  "first_offending p = None \<longleftrightarrow> (\<exists>q. policySchema_parse p = Inr q)"
  by (auto simp: first_offending_def field_checks_def policySchema_parse_Inr_iff)

lemmas js_eval =
  parseInt_def isWhiteSpace_def isRadixDigit_def digitVal_def digitsVal_def
  erc20Decimals_refine_def maxAmount_refine_def BaseEthereumAddressSchema_def

text \<open>
  A \<open>maxAmount\<close> that \<open>parseInt\<close> reads as \<open>NaN\<close> or as a negative integer is rejected.
\<close>

lemma maxAmount_nan_or_negative_rejected:
  assumes "parseInt (maxAmount p) 10 = None \<or> (\<exists>n<0. parseInt (maxAmount p) 10 = Some n)"
  shows "\<exists>issues. policySchema_parse p = Inl (ZodError issues) \<and>
           Issue (custom ''Invalid amount format. Must be a positive integer.'')
                 [Key ''maxAmount''] \<in> set issues"
  using assms
  by (auto simp: policySchema_parse_def policySchema_issues_def maxAmount_refine_def Let_def)

lemma sample_valid: "policySchema_parse sample_policy = Inr sample_policy"
  by (simp add: policySchema_parse_Inr_iff sample_policy_def js_eval)

section \<open>Numerals and their strings\<close>

lemma digitVal_dec: "(n::nat) < 10 \<Longrightarrow> digitVal (char_of (48 + n)) = Some n"
  by (simp add: digitVal_def Let_def)

lemma isRadixDigit_dec: "(n::nat) < 10 \<Longrightarrow> isRadixDigit 10 (char_of (48 + n))"
  by (simp add: isRadixDigit_def digitVal_dec)

lemma digitsVal_append:
  "digitsVal R (xs @ ys) = digitsVal R xs * R ^ length ys + digitsVal R ys"
proof (induction ys rule: rev_induct)
  case Nil
  then show ?case by (simp add: digitsVal_def)
next
  case (snoc y ys)
  then show ?case by (simp add: digitsVal_def algebra_simps)
qed

lemma digitsVal_Nil: "digitsVal R [] = 0"
  by (simp add: digitsVal_def)

lemma digitsVal_single: "digitsVal R [c] = (case digitVal c of None \<Rightarrow> 0 | Some v \<Rightarrow> v)"
  by (simp add: digitsVal_def)

lemma show_nat_digits: "list_all (isRadixDigit 10) (show_nat n) \<and> show_nat n \<noteq> []"
proof (induction n rule: show_nat.induct)
  case (1 n)
  show ?case
  proof (cases "n < 10")
    case True
    then show ?thesis by (subst show_nat.simps, subst show_nat.simps) (simp add: isRadixDigit_dec)
  next
    case False
    with 1 show ?thesis
      by (subst show_nat.simps, subst (2) show_nat.simps) (simp add: isRadixDigit_dec)
  qed
qed

lemma digitsVal_show_nat: "digitsVal 10 (show_nat n) = n"
proof (induction n rule: show_nat.induct)
  case (1 n)
  show ?case
  proof (cases "n < 10")
    case True
    then show ?thesis by (subst show_nat.simps) (simp add: digitsVal_single digitVal_dec)
  next
    case False
    with 1 show ?thesis
      by (subst show_nat.simps) (simp add: digitsVal_append digitsVal_single digitVal_dec)
  qed
qed

lemma isDecimalNumeral_show_nat: "isDecimalNumeral (show_nat n)"
  using show_nat_digits[of n] by (simp add: isDecimalNumeral_def)

lemma digit_not_ws: "isRadixDigit R c \<Longrightarrow> \<not> isWhiteSpace c"
  by (auto simp: isRadixDigit_def digitVal_def isWhiteSpace_def Let_def split: if_splits option.splits)

lemma digit10_not_special:
  "isRadixDigit 10 c \<Longrightarrow> c \<noteq> CHR ''-'' \<and> c \<noteq> CHR ''+'' \<and> c \<noteq> CHR ''x'' \<and> c \<noteq> CHR ''X''
     \<and> c \<noteq> CHR ''o'' \<and> c \<noteq> CHR ''O'' \<and> c \<noteq> CHR ''b'' \<and> c \<noteq> CHR ''B'' \<and> c \<noteq> CHR ''.''"
  by (auto simp: isRadixDigit_def digitVal_def Let_def split: if_splits option.splits)

lemma dropWhile_ws_digits:
  "s \<noteq> [] \<Longrightarrow> isRadixDigit R (hd s) \<Longrightarrow> dropWhile isWhiteSpace s = s"
  by (cases s) (auto simp: digit_not_ws)

lemma trim_digits:
  assumes "s \<noteq> []" "isRadixDigit R (hd s)" "isRadixDigit R' (last s)"
  shows "rev (dropWhile isWhiteSpace (rev (dropWhile isWhiteSpace s))) = s"
proof -
  have a: "dropWhile isWhiteSpace s = s" using assms by (simp add: dropWhile_ws_digits)
  have "rev s \<noteq> []" "isRadixDigit R' (hd (rev s))" using assms by (simp_all add: hd_rev)
  then have "dropWhile isWhiteSpace (rev s) = rev s" by (rule dropWhile_ws_digits)
  with a show ?thesis by simp
qed

lemma numeral_hd_last:
  assumes "isDecimalNumeral s"
  shows "s \<noteq> []" "isRadixDigit 10 (hd s)" "isRadixDigit 10 (last s)" "list_all (isRadixDigit 10) s"
  using assms by (auto simp: isDecimalNumeral_def list_all_iff)

lemma numeral_take2:
  assumes "isDecimalNumeral s" "\<not> isRadixDigit 10 b"
  shows "take 2 s \<noteq> [a, b]"
proof (cases s)
  case Nil
  then show ?thesis by simp
next
  case (Cons c cs)
  show ?thesis
  proof (cases cs)
    case Nil
    with Cons show ?thesis by simp
  next
    case (Cons d ds)
    with \<open>s = c # cs\<close> assms(1) have "isRadixDigit 10 d" by (simp add: isDecimalNumeral_def)
    with assms(2) have "d \<noteq> b" by blast
    with Cons \<open>s = c # cs\<close> show ?thesis by simp
  qed
qed

lemma not_digit10:
  "\<not> isRadixDigit 10 CHR ''x''" "\<not> isRadixDigit 10 CHR ''X''" "\<not> isRadixDigit 10 CHR ''o''"
  "\<not> isRadixDigit 10 CHR ''O''" "\<not> isRadixDigit 10 CHR ''b''" "\<not> isRadixDigit 10 CHR ''B''"
  "\<not> isRadixDigit 10 CHR ''-''" "\<not> isRadixDigit 10 CHR ''+''" "\<not> isRadixDigit 10 CHR ''.''"
  by (simp_all add: isRadixDigit_def digitVal_def)

lemma numeral_no_prefix:
  assumes "isDecimalNumeral s"
  shows "take 2 s \<noteq> [a, CHR ''x'']" "take 2 s \<noteq> [a, CHR ''X'']" "take 2 s \<noteq> [a, CHR ''o'']"
    "take 2 s \<noteq> [a, CHR ''O'']" "take 2 s \<noteq> [a, CHR ''b'']" "take 2 s \<noteq> [a, CHR ''B'']"
    "hd s \<noteq> CHR ''-''" "hd s \<noteq> CHR ''+''" "take 1 s \<noteq> ''-''"
proof -
  show "take 2 s \<noteq> [a, CHR ''x'']" "take 2 s \<noteq> [a, CHR ''X'']" "take 2 s \<noteq> [a, CHR ''o'']"
    "take 2 s \<noteq> [a, CHR ''O'']" "take 2 s \<noteq> [a, CHR ''b'']" "take 2 s \<noteq> [a, CHR ''B'']"
    by (rule numeral_take2[OF assms], rule not_digit10)+
  obtain c cs where s: "s = c # cs" using assms by (cases s) (auto simp: isDecimalNumeral_def)
  have c: "isRadixDigit 10 c" using assms s by (simp add: isDecimalNumeral_def)
  from c not_digit10(7,8) have "c \<noteq> CHR ''-''" "c \<noteq> CHR ''+''" by blast+
  then show "hd s \<noteq> CHR ''-''" "hd s \<noteq> CHR ''+''" "take 1 s \<noteq> ''-''"
    using s by simp_all
qed

lemma takeWhile_all: "list_all P s \<Longrightarrow> takeWhile P s = s"
  by (induction s) auto

lemma dropWhile_all: "list_all P s \<Longrightarrow> dropWhile P s = []"
  by (induction s) auto

lemma parseInt_numeral:
  assumes "isDecimalNumeral s"
  shows "parseInt s 10 = Some (int (digitsVal 10 s))" "parseInt s 0 = Some (int (digitsVal 10 s))"
proof -
  note n = numeral_hd_last[OF assms]
  have d: "dropWhile isWhiteSpace s = s" using n by (simp add: dropWhile_ws_digits)
  have t: "takeWhile (isRadixDigit 10) s = s" using n by (simp add: takeWhile_all)
  show "parseInt s 10 = Some (int (digitsVal 10 s))"
    using n numeral_no_prefix(7,8)[OF assms] by (simp add: parseInt_def d t)
  show "parseInt s 0 = Some (int (digitsVal 10 s))"
    using n numeral_no_prefix[OF assms] by (simp add: parseInt_def d t)
qed

lemma BigInt_string_numeral:
  assumes "isDecimalNumeral s"
  shows "BigInt_string s = Some (int (digitsVal 10 s))"
proof -
  note n = numeral_hd_last[OF assms]
  have t: "rev (dropWhile isWhiteSpace (rev (dropWhile isWhiteSpace s))) = s"
    using n by (simp add: trim_digits)
  show ?thesis
    using n numeral_no_prefix[OF assms] by (simp add: BigInt_string_def t allDigits_def)
qed

lemma getBigInt_numeral:
  assumes "isDecimalNumeral s"
  shows "getBigInt s = Inr (int (digitsVal 10 s))"
  using numeral_hd_last[OF assms] numeral_no_prefix[OF assms]
  by (simp add: getBigInt_def BigInt_string_numeral[OF assms])

lemma show_int_nat: "show_int (int n) = show_nat n"
  by (simp add: show_int_def)

lemma getBigInt_show_nat: "getBigInt (show_nat n) = Inr (int n)"
  using getBigInt_numeral[OF isDecimalNumeral_show_nat, of n] by (simp only: digitsVal_show_nat)

lemma parseInt_show_nat: "parseInt (show_nat n) 10 = Some (int n)"
  using parseInt_numeral(1)[OF isDecimalNumeral_show_nat, of n] by (simp only: digitsVal_show_nat)


lemma padZeros_form:
  "\<exists>k. padZeros n d = d @ replicate k CHR ''0'' \<and> n \<le> length d + k"
proof (induction n d rule: padZeros.induct)
  case (1 n decimal)
  show ?case
  proof (cases "length decimal < n")
    case True
    from 1[OF True] obtain k where
      k: "padZeros n (decimal @ Zeros) = (decimal @ Zeros) @ replicate k CHR ''0''"
         "n \<le> length (decimal @ Zeros) + k" by blast
    have "Zeros @ replicate k CHR ''0'' = replicate (128 + k) CHR ''0''"
      by (simp add: Zeros_def replicate_add)
    with k True show ?thesis
      by (subst padZeros.simps) (rule exI[of _ "128 + k"], simp add: Zeros_def)
  next
    case False
    then show ?thesis by (subst padZeros.simps) (rule exI[of _ 0], simp)
  qed
qed

lemma isRadixDigit_zero: "isRadixDigit 10 CHR ''0''"
  by (simp add: isRadixDigit_def digitVal_def)

lemma digitsVal_zeros: "digitsVal R (replicate k CHR ''0'') = 0"
proof (induction k)
  case 0
  show ?case by (simp add: digitsVal_Nil)
next
  case (Suc k)
  have "replicate (Suc k) CHR ''0'' = replicate k CHR ''0'' @ ''0''"
    by (simp add: replicate_append_same)
  then have "digitsVal R (replicate (Suc k) CHR ''0'') = digitsVal R (replicate k CHR ''0'' @ ''0'')"
    by (rule arg_cong)
  also have "\<dots> = 0"
    using Suc by (simp add: digitsVal_append digitsVal_single digitVal_def)
  finally show ?case .
qed

lemma FixedNumber_fromString_numeral:
  assumes s: "isDecimalNumeral s" and d: "0 \<le> d" "d \<le> 80"
    and b: "int (digitsVal 10 s) * 10 ^ nat d < 2 ^ 511"
  shows "FixedNumber_fromString s d = Inr (int (digitsVal 10 s) * 10 ^ nat d)"
proof -
  note n = numeral_hd_last[OF s]
  obtain k where k: "padZeros (nat d) [] = replicate k CHR ''0''" "nat d \<le> k"
    using padZeros_form[of "nat d" "[]"] by auto
  have tk: "take (nat d) (padZeros (nat d) []) = replicate (nat d) CHR ''0''"
    using k by (simp add: min_def)
  have dr: "list_all (\<lambda>c. c = CHR ''0'') (drop (nat d) (padZeros (nat d) []))"
    using k by (simp add: list_all_iff)
  have num: "isDecimalNumeral (s @ replicate (nat d) CHR ''0'')"
    using n by (auto simp: isDecimalNumeral_def list_all_iff isRadixDigit_zero)
  have val: "digitsVal 10 (s @ replicate (nat d) CHR ''0'') = digitsVal 10 s * 10 ^ nat d"
    by (simp add: digitsVal_append digitsVal_zeros)
  have lo: "- (2 ^ 511) \<le> int (digitsVal 10 s) * 10 ^ nat d"
    by (rule order_trans[of _ 0]) simp_all
  have neg: "take 1 s \<noteq> ''-''" by (rule numeral_no_prefix(9)[OF s])
  have w: "takeWhile (isRadixDigit 10) s = s" "dropWhile (isRadixDigit 10) s = []"
    using n by (simp_all add: takeWhile_all dropWhile_all)
  have B: "BigInt_string (s @ replicate (nat d) CHR ''0'') = Some (int (digitsVal 10 s) * 10 ^ nat d)"
    using BigInt_string_numeral[OF num] val by simp
  have rng: "(- (2 ^ 511) \<le> int (digitsVal 10 s) * 10 ^ nat d \<and>
             int (digitsVal 10 s) * 10 ^ nat d < 2 ^ 511) = True"
    using b lo by blast
  have d80: "(80 < d) = False" using d by simp
  have sne: "(s = []) = False" using n by simp
  show ?thesis
    unfolding FixedNumber_fromString_def Let_def
    by (simp only: neg w if_False if_True tk dr B rng d80 sne take.simps takeWhile.simps
        dropWhile.simps list.size append_Nil append_Nil2 option.case not_True_eq_False
        not_False_eq_True refl simp_thms length_0_conv add_0_right list.simps) 
qed
section \<open>The sign of the decimals that parseInt reads without a radix\<close>















section \<open>Bytes and hexadecimal strings\<close>

lemma length_toBeBytes: "length (toBeBytes k v) = k"
  by (induction k arbitrary: v) simp_all

lemma toBigInt_Nil: "toBigInt [] = 0"
  by (simp add: toBigInt_def)

lemma toBigInt_snoc: "toBigInt (xs @ [b]) = toBigInt xs * 256 + unat b"
  by (simp add: toBigInt_def)

lemma toBigInt_append: "toBigInt (xs @ ys) = toBigInt xs * 256 ^ length ys + toBigInt ys"
proof (induction ys rule: rev_induct)
  case Nil
  show ?case by (simp add: toBigInt_Nil)
next
  case (snoc y ys)
  have "toBigInt (xs @ ys @ [y]) = toBigInt ((xs @ ys) @ [y])" by simp
  also have "\<dots> = toBigInt (xs @ ys) * 256 + unat y" by (rule toBigInt_snoc)
  finally show ?case using snoc by (simp add: toBigInt_snoc algebra_simps)
qed

lemma unat_byte_of_nat: "unat (of_nat x :: byte) = x mod 256"
  by (simp add: unat_of_nat)

lemma toBigInt_toBeBytes: "toBigInt (toBeBytes k v) = v mod 256 ^ k"
proof (induction k arbitrary: v)
  case 0
  show ?case by (simp add: toBigInt_Nil)
next
  case (Suc k)
  have "toBigInt (toBeBytes (Suc k) v) = (v div 256 mod 256 ^ k) * 256 + v mod 256"
    by (simp add: toBigInt_snoc Suc unat_byte_of_nat)
  also have "\<dots> = v mod (256 * 256 ^ k)"
    by (simp add: mod_mult2_eq)
  finally show ?case by simp
qed

lemma toBigInt_toBeBytes_small: "v < 256 ^ k \<Longrightarrow> toBigInt (toBeBytes k v) = v"
  by (simp add: toBigInt_toBeBytes)

lemma unat_byte_less: "unat (b :: byte) < 256"
  using unsigned_less[of b, where 'a=nat] by simp

lemma toBigInt_bound: "toBigInt bs < 256 ^ length bs"
proof (induction bs rule: rev_induct)
  case Nil
  show ?case by (simp add: toBigInt_Nil)
next
  case (snoc b bs)
  have "unat b < 256" by (rule unat_byte_less)
  with snoc have "toBigInt bs * 256 + unat b < (toBigInt bs + 1) * 256" by simp
  also have "\<dots> \<le> 256 ^ length bs * 256" using snoc by (simp add: Suc_leI del: mult_Suc)
  finally show ?case by (simp add: toBigInt_snoc)
qed

lemma digitVal_hexDigit: "n < 16 \<Longrightarrow> digitVal (hexDigit n) = Some n"
  by (simp add: hexDigit_def digitVal_def Let_def)

lemma isRadixDigit_hexDigit: "n < 16 \<Longrightarrow> isRadixDigit 16 (hexDigit n)"
  by (simp add: isRadixDigit_def digitVal_hexDigit)

lemma digitsVal_pair:
  "digitsVal R [c, d] =
     (case digitVal c of None \<Rightarrow> 0 | Some v \<Rightarrow> v) * R + (case digitVal d of None \<Rightarrow> 0 | Some v \<Rightarrow> v)"
  by (simp add: digitsVal_def)

lemma byte_nibbles: "unat (b :: byte) div 16 < 16" "unat b mod 16 < 16"
  using unat_byte_less[of b] by simp_all

lemma hexPairs_hexByte:
  "hexPairs (hexByte b @ cs) = map_option (\<lambda>bs. b # bs) (hexPairs cs)"
proof -
  have "of_nat (unat b div 16 * 16 + unat b mod 16) = b" by simp
  then show ?thesis
    by (simp add: hexByte_def isRadixDigit_hexDigit byte_nibbles digitsVal_pair digitVal_hexDigit)
qed

lemma hexPairs_concat: "hexPairs (concat (map hexByte bs)) = Some bs"
  by (induction bs) (simp_all add: hexPairs_hexByte)

lemma getBytes_hexlify: "getBytes (hexlify bs) = Inr bs"
  by (simp add: getBytes_def hexlify_def hexPairs_concat)

lemma hexlify_inj: "hexlify a = hexlify b \<Longrightarrow> a = b"
proof -
  assume "hexlify a = hexlify b"
  then have "getBytes (hexlify a) = getBytes (hexlify b)" by (rule arg_cong)
  then show "a = b" by (simp only: getBytes_hexlify sum.inject)
qed

section \<open>Addresses\<close>

lemma of_char_toLowerChar:
  "(of_char (toLowerChar c) :: nat) =
     (if 65 \<le> (of_char c :: nat) \<and> (of_char c :: nat) \<le> 90 then of_char c + 32 else of_char c)"
  by (simp add: toLowerChar_def Let_def)

lemma of_char_toUpperChar:
  "(of_char (toUpperChar c) :: nat) =
     (if 97 \<le> (of_char c :: nat) \<and> (of_char c :: nat) \<le> 122 then of_char c - 32 else of_char c)"
proof -
  have "(of_char c - 32 :: nat) mod 256 = of_char c - 32"
    by (rule mod_less) (use of_char_mod_256[of c, where 'a=nat] in \<open>simp add: less_imp_diff_less\<close>)
  then show ?thesis by (simp add: toUpperChar_def Let_def)
qed

lemma digitVal_toLowerChar: "digitVal (toLowerChar c) = digitVal c"
  unfolding digitVal_def Let_def of_char_toLowerChar by auto

lemma digitVal_toUpperChar: "digitVal (toUpperChar c) = digitVal c"
  unfolding digitVal_def Let_def of_char_toUpperChar by auto

lemma char_eqI: "(of_char a :: nat) = of_char b \<Longrightarrow> a = b"
  by simp


lemma toLowerChar_idem: "toLowerChar (toLowerChar c) = toLowerChar c"
  by (rule char_eqI) (auto simp: of_char_toLowerChar)

lemma isRadixDigit_toLowerChar: "isRadixDigit R (toLowerChar c) = isRadixDigit R c"
  by (simp add: isRadixDigit_def digitVal_toLowerChar)

lemma isRadixDigit_toUpperChar: "isRadixDigit R (toUpperChar c) = isRadixDigit R c"
  by (simp add: isRadixDigit_def digitVal_toUpperChar)

lemma digitsVal_cong:
  assumes "map digitVal s = map digitVal t"
  shows "digitsVal R s = digitsVal R t"
proof -
  have "digitsVal R u = foldl (\<lambda>a v. a * R + (case v of None \<Rightarrow> 0 | Some v \<Rightarrow> v)) 0 (map digitVal u)" for u
    by (simp add: digitsVal_def foldl_map)
  with assms show ?thesis by simp
qed

lemma of_char_hexDigit: "v < 16 \<Longrightarrow> (of_char (hexDigit v) :: nat) = (if v < 10 then 48 + v else 87 + v)"
  by (simp add: hexDigit_def)

lemma hexDigit_digitVal:
  assumes "digitVal c = Some v" "v < 16"
  shows "hexDigit v = toLowerChar c"
proof (rule char_eqI)
  show "(of_char (hexDigit v) :: nat) = of_char (toLowerChar c)"
    using assms unfolding of_char_hexDigit[OF assms(2)] of_char_toLowerChar digitVal_def Let_def
    by (auto split: if_splits)
qed


lemma cased_digitVal:
  "map digitVal (map (\<lambda>(i, c). if P i then toUpperChar c else c) (enumerate n cs))
     = map digitVal cs"
  by (induction cs arbitrary: n) (simp_all add: digitVal_toUpperChar)

lemma list_all_digit_cong:
  assumes "map digitVal s = map digitVal t"
  shows "list_all (isRadixDigit R) s = list_all (isRadixDigit R) t"
proof -
  have "list_all (isRadixDigit R) u =
        list_all (\<lambda>v. case v of None \<Rightarrow> False | Some v \<Rightarrow> v < R) (map digitVal u)" for u
    by (simp add: list_all_iff isRadixDigit_def)
  with assms show ?thesis by simp
qed

lemma valid_split:
  assumes "BaseEthereumAddressSchema a"
  shows "a = ''0x'' @ drop 2 a" "length (drop 2 a) = 40" "list_all (isRadixDigit 16) (drop 2 a)"
proof -
  from assms have t: "take 2 a = ''0x''" and l: "length a = 42"
    and h: "list_all (isRadixDigit 16) (drop 2 a)"
    by (simp_all add: BaseEthereumAddressSchema_def)
  have "a = take 2 a @ drop 2 a" by simp
  with t show "a = ''0x'' @ drop 2 a" by simp
  from l show "length (drop 2 a) = 40" by simp
  from h show "list_all (isRadixDigit 16) (drop 2 a)" .
qed

lemma toLowerCase_valid:
  assumes "BaseEthereumAddressSchema a"
  shows "toLowerCase a = ''0x'' @ map toLowerChar (drop 2 a)"
proof -
  have "toLowerCase a = toLowerCase (''0x'' @ drop 2 a)"
    using valid_split(1)[OF assms] by simp
  also have "\<dots> = ''0x'' @ map toLowerChar (drop 2 a)"
    by (simp add: toLowerCase_def toLowerChar_def)
  finally show ?thesis .
qed

lemma checksum_form:
  assumes "BaseEthereumAddressSchema a"
  shows "\<exists>P. getChecksumAddress a =
           ''0x'' @ map (\<lambda>(i, c). if P i then toUpperChar c else c)
                        (enumerate 0 (map toLowerChar (drop 2 a)))"
proof -
  have "take 40 (drop 2 (toLowerCase a)) = map toLowerChar (drop 2 a)"
    using valid_split(2)[OF assms] by (simp add: toLowerCase_valid[OF assms])
  then have "getChecksumAddress a =
           ''0x'' @ map (\<lambda>(i, c). if 8 \<le> hashNibble (keccak256 (map of_char (map toLowerChar (drop 2 a)))) i
                                  then toUpperChar c else c)
                        (enumerate 0 (map toLowerChar (drop 2 a)))"
    unfolding getChecksumAddress_def Let_def by (simp only:)
  then show ?thesis
    by (rule exI[of _ "\<lambda>i. 8 \<le> hashNibble (keccak256 (map of_char (map toLowerChar (drop 2 a)))) i"])
qed


lemma checksum_drop2_digitVal:
  assumes "BaseEthereumAddressSchema a"
  shows "map digitVal (drop 2 (getChecksumAddress a)) = map digitVal (drop 2 a)"
proof -
  from checksum_form[OF assms] obtain P where
    P: "getChecksumAddress a = ''0x'' @ map (\<lambda>(i, c). if P i then toUpperChar c else c)
                        (enumerate 0 (map toLowerChar (drop 2 a)))" ..
  have "drop 2 (getChecksumAddress a) = map (\<lambda>(i, c). if P i then toUpperChar c else c)
                        (enumerate 0 (map toLowerChar (drop 2 a)))"
    unfolding P by simp
  then have "map digitVal (drop 2 (getChecksumAddress a)) = map digitVal (map toLowerChar (drop 2 a))"
    by (simp only: cased_digitVal)
  then show ?thesis
    by (simp add: comp_def digitVal_toLowerChar)
qed

lemma checksum_valid:
  assumes "BaseEthereumAddressSchema a"
  shows "BaseEthereumAddressSchema (getChecksumAddress a)"
proof -
  from checksum_form[OF assms] obtain P where
    P: "getChecksumAddress a = ''0x'' @ map (\<lambda>(i, c). if P i then toUpperChar c else c)
                        (enumerate 0 (map toLowerChar (drop 2 a)))" ..
  have l: "length (getChecksumAddress a) = 42"
    unfolding P using valid_split(2)[OF assms] by simp
  have t: "take 2 (getChecksumAddress a) = ''0x''"
    unfolding P by simp
  have h: "list_all (isRadixDigit 16) (drop 2 (getChecksumAddress a))"
    using list_all_digit_cong[OF checksum_drop2_digitVal[OF assms], of 16] valid_split(3)[OF assms]
    by simp
  from l t h show ?thesis by (simp add: BaseEthereumAddressSchema_def)
qed

lemma checksum_cong:
  "toLowerCase a = toLowerCase b \<Longrightarrow> getChecksumAddress a = getChecksumAddress b"
  by (simp add: getChecksumAddress_def)

lemma checksum_value:
  assumes "BaseEthereumAddressSchema a"
  shows "addressValue (getChecksumAddress a) = addressValue a"
  unfolding addressValue_def by (rule digitsVal_cong) (rule checksum_drop2_digitVal[OF assms])

lemma getAddress_valid:
  assumes "BaseEthereumAddressSchema a"
  shows "getAddress a =
           (if mixedCase a \<and> getChecksumAddress a \<noteq> a then Inl EthersError
            else Inr (getChecksumAddress a))"
proof -
  from assms have t: "take 2 a = ''0x''" by (simp add: BaseEthereumAddressSchema_def)
  have e: "''0x'' @ drop 2 a = a" using valid_split(1)[OF assms] by simp
  show ?thesis
    unfolding getAddress_def Let_def
    by (simp only: t if_True valid_split(2,3)[OF assms] e simp_thms)
qed

lemma getAddress_Inr:
  assumes "BaseEthereumAddressSchema a" "getAddress a = Inr r"
  shows "r = getChecksumAddress a"
  using assms(2) unfolding getAddress_valid[OF assms(1)] by (simp split: if_splits)

lemma not_upper_toLowerChar: "\<not> isUpperHex (toLowerChar c)"
proof
  assume "isUpperHex (toLowerChar c)"
  then have "65 \<le> (of_char (toLowerChar c) :: nat) \<and> (of_char (toLowerChar c) :: nat) \<le> 70"
    by (auto simp: isUpperHex_def)
  then show False
    unfolding of_char_toLowerChar by (auto split: if_splits)
qed

lemma not_mixed_lower:
  assumes "BaseEthereumAddressSchema a"
  shows "\<not> mixedCase (toLowerCase a)"
proof -
  have "\<not> isUpperHex CHR ''0''" "\<not> isUpperHex CHR ''x''"
    by (simp_all add: isUpperHex_def)
  then have "\<not> list_ex isUpperHex (toLowerCase a)"
    unfolding toLowerCase_valid[OF assms]
    by (simp add: list_ex_iff not_upper_toLowerChar)
  then show ?thesis by (simp add: mixedCase_def)
qed

lemma toLowerCase_idem: "toLowerCase (toLowerCase a) = toLowerCase a"
  by (simp add: toLowerCase_def toLowerChar_idem)

lemma valid_toLowerCase:
  assumes "BaseEthereumAddressSchema a"
  shows "BaseEthereumAddressSchema (toLowerCase a)"
proof -
  have "list_all (isRadixDigit 16) (map toLowerChar (drop 2 a))"
    using valid_split(3)[OF assms] by (simp add: list_all_iff isRadixDigit_toLowerChar)
  then show ?thesis
    unfolding toLowerCase_valid[OF assms] using valid_split(2)[OF assms]
    by (simp add: BaseEthereumAddressSchema_def)
qed

lemma getAddress_lower:
  assumes "BaseEthereumAddressSchema a"
  shows "getAddress (toLowerCase a) = Inr (getChecksumAddress a)"
proof -
  have "getChecksumAddress (toLowerCase a) = getChecksumAddress a"
    by (rule checksum_cong) (rule toLowerCase_idem)
  then show ?thesis
    using not_mixed_lower[OF assms]
    by (simp add: getAddress_valid[OF valid_toLowerCase[OF assms]])
qed

lemma digitsVal_bound:
  assumes "list_all (isRadixDigit R) s"
  shows "digitsVal R s < R ^ length s"
  using assms
proof (induction s rule: rev_induct)
  case Nil
  show ?case by (simp add: digitsVal_Nil)
next
  case (snoc c s)
  then obtain v where v: "digitVal c = Some v" "v < R"
    by (auto simp: isRadixDigit_def split: option.splits)
  from snoc have "digitsVal R s < R ^ length s" by simp
  then have "digitsVal R s + 1 \<le> R ^ length s" by simp
  then have "(digitsVal R s + 1) * R \<le> R ^ length s * R" by (rule mult_le_mono1)
  then have "digitsVal R s * R + R \<le> R ^ length s * R" by (simp add: algebra_simps)
  with v have "digitsVal R s * R + v < R ^ length s * R" by linarith
  with v show ?case
    by (simp add: digitsVal_append digitsVal_single mult.commute)
qed

lemma addressValue_bound:
  assumes "BaseEthereumAddressSchema a"
  shows "addressValue a < 2 ^ 160"
proof -
  have "addressValue a < 16 ^ 40"
    using digitsVal_bound[OF valid_split(3)[OF assms]] valid_split(2)[OF assms]
    by (simp add: addressValue_def)
  also have "(16::nat) ^ 40 = 2 ^ 160" by simp
  finally show ?thesis .
qed

lemma isRadixDigit16_facts:
  "isRadixDigit 16 CHR ''0''" "\<not> isRadixDigit 16 CHR ''x''" "\<not> isRadixDigit 16 CHR ''X''"
  "\<not> isRadixDigit 16 CHR ''-''"
  by (simp_all add: isRadixDigit_def digitVal_def)

lemma getBigInt_address:
  assumes "BaseEthereumAddressSchema a"
  shows "getBigInt a = Inr (int (addressValue a))"
proof -
  note v = valid_split[OF assms]
  from assms have t: "take 2 a = ''0x''" by (simp add: BaseEthereumAddressSchema_def)
  have ne: "a \<noteq> []" "drop 2 a \<noteq> []" using v(2) by auto
  have h: "hd a = CHR ''0''" using v(1) by (metis append_Cons list.sel(1))
  have l: "isRadixDigit 16 (last a)"
  proof -
    have "last a = last (drop 2 a)" using v(2) by (simp add: last_drop)
    moreover have "last (drop 2 a) \<in> set (drop 2 a)" by (rule last_in_set) (rule ne(2))
    ultimately show ?thesis using v(3) by (simp add: list_all_iff)
  qed
  have tr: "rev (dropWhile isWhiteSpace (rev (dropWhile isWhiteSpace a))) = a"
    by (rule trim_digits[OF ne(1) _ l, of 16]) (simp add: h isRadixDigit16_facts)
  have B: "BigInt_string a = Some (int (addressValue a))"
    unfolding BigInt_string_def tr Let_def
    using ne v(3) by (simp add: t allDigits_def addressValue_def)
  show ?thesis
    unfolding getBigInt_def using ne by (simp add: h B)
qed

lemma hexByte_digits:
  assumes c: "digitVal c = Some cv" "cv < 16" and d: "digitVal d = Some dv" "dv < 16"
  shows "hexByte (of_nat (cv * 16 + dv)) = [toLowerChar c, toLowerChar d]"
proof -
  have lt: "cv * 16 + dv < 256" using c(2) d(2) by simp
  have "unat (of_nat (cv * 16 + dv) :: byte) = (cv * 16 + dv) mod 256"
    by (rule unat_byte_of_nat)
  also have "\<dots> = cv * 16 + dv" using lt by (rule mod_less)
  finally have u: "unat (of_nat (cv * 16 + dv) :: byte) = cv * 16 + dv" .
  have "(cv * 16 + dv) div 16 = cv" "(cv * 16 + dv) mod 16 = dv" using d(2) by simp_all
  then show ?thesis
    unfolding hexByte_def u
    by (simp add: hexDigit_digitVal[OF c] hexDigit_digitVal[OF d])
qed

lemma split_last_two:
  assumes "length s = 2 * Suc k"
  shows "\<exists>s' c d. s = s' @ [c, d] \<and> length s' = 2 * k"
proof -
  from assms have "s \<noteq> []" by auto
  then obtain s1 d where s1: "s = s1 @ [d]" by (metis rev_exhaust)
  with assms have "length s1 = 2 * k + 1" by simp
  then have "s1 \<noteq> []" by auto
  then obtain s' c where s': "s1 = s' @ [c]" by (metis rev_exhaust)
  with \<open>length s1 = 2 * k + 1\<close> have "length s' = 2 * k" by simp
  with s1 s' show ?thesis by auto
qed

lemma hexBytes_of_digits:
  assumes "list_all (isRadixDigit 16) s" "length s = 2 * k"
  shows "concat (map hexByte (toBeBytes k (digitsVal 16 s))) = map toLowerChar s"
  using assms
proof (induction k arbitrary: s)
  case 0
  then show ?case by simp
next
  case (Suc k)
  from split_last_two[OF Suc.prems(2)] obtain s' c d where
    s: "s = s' @ [c, d]" and l: "length s' = 2 * k" by blast
  from Suc.prems(1) s have h: "list_all (isRadixDigit 16) s'" "isRadixDigit 16 c" "isRadixDigit 16 d"
    by simp_all
  from h(2) obtain cv where cv: "digitVal c = Some cv" "cv < 16"
    by (auto simp: isRadixDigit_def split: option.splits)
  from h(3) obtain dv where dv: "digitVal d = Some dv" "dv < 16"
    by (auto simp: isRadixDigit_def split: option.splits)
  have v: "digitsVal 16 s = digitsVal 16 s' * 256 + (cv * 16 + dv)"
    unfolding s by (simp add: digitsVal_append[of 16 s' "[c, d]"] digitsVal_pair cv dv)
  have lt: "cv * 16 + dv < 256" using cv(2) dv(2) by simp
  have dm: "digitsVal 16 s div 256 = digitsVal 16 s'" "digitsVal 16 s mod 256 = cv * 16 + dv"
    unfolding v using lt by simp_all
  have "concat (map hexByte (toBeBytes (Suc k) (digitsVal 16 s)))
        = concat (map hexByte (toBeBytes k (digitsVal 16 s'))) @ hexByte (of_nat (cv * 16 + dv))"
    by (simp add: dm)
  also have "\<dots> = map toLowerChar s' @ [toLowerChar c, toLowerChar d]"
    by (simp only: Suc.IH[OF h(1) l] hexByte_digits[OF cv dv])
  finally show ?case unfolding s by simp
qed

lemma toBeHex_address:
  assumes "BaseEthereumAddressSchema a"
  shows "toBeHex (addressValue a) 20 = Inr (toLowerCase a)"
proof -
  note v = valid_split[OF assms]
  have "concat (map hexByte (toBeBytes 20 (digitsVal 16 (drop 2 a)))) = map toLowerChar (drop 2 a)"
    by (rule hexBytes_of_digits[OF v(3)]) (use v(2) in simp)
  then have "hexlify (toBeBytes 20 (addressValue a)) = toLowerCase a"
    by (simp add: hexlify_def addressValue_def toLowerCase_valid[OF assms])
  moreover have "addressValue a < 2 ^ (8 * 20)"
    using addressValue_bound[OF assms] by simp
  ultimately show ?thesis
    unfolding toBeHex_def by (simp only: if_True)
qed

lemma AddressCoder_encode_valid:
  assumes "BaseEthereumAddressSchema a"
  shows "AddressCoder_encode a =
           (if mixedCase a \<and> getChecksumAddress a \<noteq> a then Inl EthersError
            else Inr (toBeBytes 32 (addressValue a)))"
proof -
  have b: "addressValue a < 2 ^ 256"
    by (rule less_trans[OF addressValue_bound[OF assms]]) simp
  have g: "getBigInt (getChecksumAddress a) = Inr (int (addressValue a))"
    using getBigInt_address[OF checksum_valid[OF assms]] checksum_value[OF assms] by simp
  have gv: "getValue (addressValue a) = Inr (toBeBytes 32 (addressValue a))"
    unfolding getValue_def WordSize_def using b by (simp only: if_True)
  show ?thesis
    unfolding AddressCoder_encode_def getAddress_valid[OF assms]
    by (simp add: g gv)
qed

section \<open>ABI encoding\<close>

lemma collect_Inr_iff: "collect rs = Inr xs \<longleftrightarrow> rs = map Inr xs"
proof (induction rs arbitrary: xs)
  case Nil
  show ?case by auto
next
  case (Cons r rs)
  show ?case
  proof (cases r)
    case (Inl e)
    then show ?thesis by (cases xs) auto
  next
    case (Inr x)
    show ?thesis
    proof (cases "collect rs")
      case (Inl e)
      with Inr Cons[of "tl xs"] show ?thesis by (cases xs) auto
    next
      case r: (Inr ys)
      with Inr Cons[of ys] Cons[of "tl xs"] show ?thesis by (cases xs) auto
    qed
  qed
qed

lemma pack_head_static: "pack_head base off (map (Pair False) ws) = Inr (concat ws)"
  by (induction ws) simp_all

lemma pack_static: "pack (map (Pair False) ws) = Inr (concat ws)"
  by (simp add: pack_def pack_head_static comp_def)

lemma getValue_Inr_iff: "getValue v = Inr bs \<longleftrightarrow> v < 2 ^ 256 \<and> bs = toBeBytes 32 v"
  unfolding getValue_def WordSize_def by (cases "v < 2 ^ 256") (simp_all only: if_True if_False sum.inject sum.distinct simp_thms, auto)

lemma AddressCoder_encode_Inr_iff:
  assumes "BaseEthereumAddressSchema a"
  shows "AddressCoder_encode a = Inr w \<longleftrightarrow> checksum_ok a \<and> w = toBeBytes 32 (addressValue a)"
  unfolding AddressCoder_encode_valid[OF assms] checksum_ok_def by auto

lemma map_AddressCoder_encode:
  assumes "list_all BaseEthereumAddressSchema xs"
  shows "map AddressCoder_encode xs = map Inr ws \<longleftrightarrow>
           list_all checksum_ok xs \<and> ws = map (\<lambda>a. toBeBytes 32 (addressValue a)) xs"
  using assms
proof (induction xs arbitrary: ws)
  case Nil
  show ?case by auto
next
  case (Cons a xs)
  then have a: "BaseEthereumAddressSchema a" and xs: "list_all BaseEthereumAddressSchema xs"
    by simp_all
  show ?case
  proof (cases ws)
    case Nil
    then show ?thesis by auto
  next
    case (Cons w ws')
    show ?thesis
      unfolding Cons using Cons.IH[OF xs, of ws'] AddressCoder_encode_Inr_iff[OF a, of w]
      by auto
  qed
qed

lemma ArrayCoder_encode_Inr_iff:
  assumes "list_all BaseEthereumAddressSchema xs"
  shows "ArrayCoder_encode xs = Inr bs \<longleftrightarrow>
           length xs < 2 ^ 256 \<and> list_all checksum_ok xs \<and> bs = abi_array (map addressValue xs)"
proof (cases "getValue (length xs)")
  case (Inl e)
  then have "\<not> length xs < 2 ^ 256" by (simp add: getValue_def split: if_splits)
  with Inl show ?thesis by (simp add: ArrayCoder_encode_def)
next
  case (Inr len)
  then have len: "length xs < 2 ^ 256" "len = toBeBytes 32 (length xs)"
    by (simp_all add: getValue_Inr_iff)
  show ?thesis
  proof (cases "collect (map AddressCoder_encode xs)")
    case (Inl e)
    then have "\<not> list_all checksum_ok xs"
      using collect_Inr_iff[of "map AddressCoder_encode xs"] map_AddressCoder_encode[OF assms]
      by (metis sum.distinct(1))
    with Inl Inr show ?thesis by (simp add: ArrayCoder_encode_def)
  next
    case ws: (Inr ws)
    then have w: "list_all checksum_ok xs" "ws = map (\<lambda>a. toBeBytes 32 (addressValue a)) xs"
      using collect_Inr_iff[of "map AddressCoder_encode xs" ws] map_AddressCoder_encode[OF assms, of ws]
      by simp_all
    have "abi_array (map addressValue xs) = len @ concat ws"
      by (simp add: abi_array_def len(2) w(2) comp_def)
    with Inr ws len(1) w(1) show ?thesis
      by (auto simp: ArrayCoder_encode_def pack_static)
  qed
qed

lemma NumberCoder_encode_Inr_iff:
  assumes "sz \<le> 32"
  shows "NumberCoder_encode sz s = Inr bs \<longleftrightarrow>
           (\<exists>v. getBigInt s = Inr v \<and> 0 \<le> v \<and> v < 2 ^ (8 * sz) \<and> bs = toBeBytes 32 (nat v))"
proof (cases "getBigInt s")
  case (Inl e)
  then show ?thesis by (simp add: NumberCoder_encode_def)
next
  case (Inr v)
  have le: "(2::int) ^ (8 * sz) \<le> 2 ^ 256"
    using assms by (intro power_increasing) simp_all
  show ?thesis
  proof (cases "0 \<le> v \<and> v < 2 ^ (8 * sz)")
    case True
    then have "v < 2 ^ 256" using le by linarith
    then have "nat v < 2 ^ 256" using True by (simp add: nat_less_iff)
    then have "getValue (nat v) = Inr (toBeBytes 32 (nat v))"
      by (simp add: getValue_Inr_iff)
    with Inr True show ?thesis by (auto simp: NumberCoder_encode_def)
  next
    case False
    with Inr show ?thesis by (auto simp: NumberCoder_encode_def)
  qed
qed

lemma length_concat_words: "length (concat (map (toBeBytes 32) vs)) = 32 * length vs"
  by (induction vs) (simp_all add: length_toBeBytes)

lemma length_abi_array: "length (abi_array vs) = 32 + 32 * length vs"
  by (simp add: abi_array_def length_toBeBytes length_concat_words)

lemma pack_tuple:
  assumes "length a = 32" "length b = 32"
  shows "pack [(False, a), (False, b), (True, c), (True, d)] =
           (if 128 + length c < 2 ^ 256
            then Inr (a @ b @ toBeBytes 32 128 @ toBeBytes 32 (128 + length c) @ c @ d)
            else Inl EthersError)"
proof -
  have sl: "staticLength [(False, a), (False, b), (True, c), (True, d)] = 128"
    by (simp add: staticLength_def WordSize_def assms)
  have g: "getValue 128 = Inr (toBeBytes 32 128)"
    by (simp add: getValue_Inr_iff)
  show ?thesis
  proof (cases "128 + length c < 2 ^ 256")
    case True
    then have "getValue (128 + length c) = Inr (toBeBytes 32 (128 + length c))"
      by (simp only: getValue_Inr_iff simp_thms)
    with True show ?thesis
      unfolding pack_def sl by (simp add: g)
  next
    case False
    then have "getValue (128 + length c) = Inl EthersError"
      unfolding getValue_def by (simp only: if_False)
    with False show ?thesis
      unfolding pack_def sl by (simp add: g)
  qed
qed

lemma pack_outer: "pack [(True, t)] = Inr (toBeBytes 32 32 @ t)"
proof -
  have "getValue 32 = Inr (toBeBytes 32 32)" by (simp add: getValue_Inr_iff)
  then show ?thesis by (simp add: pack_def staticLength_def WordSize_def)
qed

lemma abiCoder_encode_bytes_Inr_iff:
  assumes ts: "list_all BaseEthereumAddressSchema ts" and rs: "list_all BaseEthereumAddressSchema rs"
  shows "abiCoder_encode_bytes (ds, ms, ts, rs) = Inr bs \<longleftrightarrow>
           (\<exists>d m. getBigInt ds = Inr d \<and> 0 \<le> d \<and> d < 256 \<and>
                  getBigInt ms = Inr m \<and> 0 \<le> m \<and> m < 2 ^ 256 \<and>
                  list_all checksum_ok ts \<and> list_all checksum_ok rs \<and>
                  160 + 32 * length ts < 2 ^ 256 \<and> length rs < 2 ^ 256 \<and>
                  bs = abi_layout (nat d) (nat m) (map addressValue ts) (map addressValue rs))"
    (is "?L \<longleftrightarrow> ?R")
proof
  assume ?L
  then obtain t where t: "TupleCoder_encode (ds, ms, ts, rs) = Inr t" and bs: "bs = toBeBytes 32 32 @ t"
    by (auto simp: abiCoder_encode_bytes_def pack_outer split: sum.splits)
  from t obtain a b c d where
    a: "NumberCoder_encode 1 ds = Inr a" and b: "NumberCoder_encode 32 ms = Inr b" and
    c: "ArrayCoder_encode ts = Inr c" and d: "ArrayCoder_encode rs = Inr d" and
    p: "pack [(False, a), (False, b), (True, c), (True, d)] = Inr t"
    by (auto simp: TupleCoder_encode_def split: sum.splits)
  from a obtain dv where dv: "getBigInt ds = Inr dv" "0 \<le> dv" "dv < 256" "a = toBeBytes 32 (nat dv)"
    by (auto simp: NumberCoder_encode_Inr_iff)
  from b obtain mv where mv: "getBigInt ms = Inr mv" "0 \<le> mv" "mv < 2 ^ 256" "b = toBeBytes 32 (nat mv)"
    by (auto simp: NumberCoder_encode_Inr_iff)
  from c have cc: "length ts < 2 ^ 256" "list_all checksum_ok ts" "c = abi_array (map addressValue ts)"
    by (simp_all add: ArrayCoder_encode_Inr_iff[OF ts])
  from d have dd: "length rs < 2 ^ 256" "list_all checksum_ok rs" "d = abi_array (map addressValue rs)"
    by (simp_all add: ArrayCoder_encode_Inr_iff[OF rs])
  have la: "length a = 32" "length b = 32" by (simp_all add: dv(4) mv(4) length_toBeBytes)
  have lc: "128 + length c = 160 + 32 * length ts" by (simp add: cc(3) length_abi_array)
  from p have off: "160 + 32 * length ts < 2 ^ 256"
    and tt: "t = a @ b @ toBeBytes 32 128 @ toBeBytes 32 (160 + 32 * length ts) @ c @ d"
    unfolding pack_tuple[OF la] lc by (simp_all split: if_splits)
  have "bs = abi_layout (nat dv) (nat mv) (map addressValue ts) (map addressValue rs)"
    unfolding bs tt abi_layout_def dv(4) mv(4) cc(3) dd(3) by simp
  with dv mv cc dd off show ?R by blast
next
  assume ?R
  then obtain dv mv where dv: "getBigInt ds = Inr dv" "0 \<le> dv" "dv < 256"
    and mv: "getBigInt ms = Inr mv" "0 \<le> mv" "mv < 2 ^ 256"
    and ok: "list_all checksum_ok ts" "list_all checksum_ok rs"
    and off: "160 + 32 * length ts < 2 ^ 256" and lr: "length rs < 2 ^ 256"
    and bs: "bs = abi_layout (nat dv) (nat mv) (map addressValue ts) (map addressValue rs)"
    by blast
  have a: "NumberCoder_encode 1 ds = Inr (toBeBytes 32 (nat dv))"
    using dv by (simp add: NumberCoder_encode_Inr_iff)
  have b: "NumberCoder_encode 32 ms = Inr (toBeBytes 32 (nat mv))"
    using mv by (simp add: NumberCoder_encode_Inr_iff)
  have lt: "length ts < 2 ^ 256" using off by simp
  have c: "ArrayCoder_encode ts = Inr (abi_array (map addressValue ts))"
    using lt ok(1) by (simp add: ArrayCoder_encode_Inr_iff[OF ts])
  have d: "ArrayCoder_encode rs = Inr (abi_array (map addressValue rs))"
    using lr ok(2) by (simp add: ArrayCoder_encode_Inr_iff[OF rs])
  have lc: "128 + length (abi_array (map addressValue ts)) = 160 + 32 * length ts"
    by (simp add: length_abi_array)
  have p: "pack [(False, toBeBytes 32 (nat dv)), (False, toBeBytes 32 (nat mv)),
                 (True, abi_array (map addressValue ts)), (True, abi_array (map addressValue rs))]
           = Inr (toBeBytes 32 (nat dv) @ toBeBytes 32 (nat mv) @ toBeBytes 32 128 @
                  toBeBytes 32 (160 + 32 * length ts) @
                  abi_array (map addressValue ts) @ abi_array (map addressValue rs))"
    unfolding pack_tuple[OF length_toBeBytes length_toBeBytes] lc using off by (simp only: if_True)
  show ?L
    unfolding abiCoder_encode_bytes_def TupleCoder_encode_def bs abi_layout_def
    by (simp add: a a[unfolded One_nat_def] b c d p pack_outer)
qed

section \<open>ABI decoding\<close>

lemma readBytes_at:
  assumes "data r = pre @ w @ post" "length w = 32" "offset r = length pre"
  shows "readBytes r = Inr (w, r\<lparr>offset := length pre + 32\<rparr>)"
  using assms by (simp add: readBytes_def WordSize_def)

lemma readValue_at:
  assumes "data r = pre @ toBeBytes 32 v @ post" "offset r = length pre" "v < 2 ^ 256"
  shows "readValue r = Inr (v, r\<lparr>offset := length pre + 32\<rparr>)"
proof -
  have "toBigInt (toBeBytes 32 v) = v"
    by (rule toBigInt_toBeBytes_small) (use assms(3) in simp)
  then show ?thesis
    unfolding readValue_def readBytes_at[OF assms(1) length_toBeBytes assms(2)] by simp
qed

lemma readIndex_at:
  assumes "data r = pre @ toBeBytes 32 v @ post" "offset r = length pre" "int v \<le> maxValue"
  shows "readIndex r = Inr (v, r\<lparr>offset := length pre + 32\<rparr>)"
proof -
  have "int v < 2 ^ 256" using assms(3) by (simp add: maxValue_def)
  then have "v < 2 ^ 256" by (metis of_nat_less_iff of_nat_numeral of_nat_power)
  from readValue_at[OF assms(1,2) this] assms(3) show ?thesis
    by (simp add: readIndex_def getNumber_def maxValue_def)
qed

lemma AddressCoder_decode_at:
  assumes "data r = pre @ toBeBytes 32 (addressValue a) @ post" "offset r = length pre"
    "BaseEthereumAddressSchema a"
  shows "AddressCoder_decode r = Inr (getChecksumAddress a, r\<lparr>offset := length pre + 32\<rparr>)"
proof -
  have "addressValue a < 2 ^ 256"
    by (rule less_trans[OF addressValue_bound[OF assms(3)]]) simp
  from readValue_at[OF assms(1,2) this] show ?thesis
    by (simp add: AddressCoder_decode_def toBeHex_address[OF assms(3)] getAddress_lower[OF assms(3)])
qed

lemma unpack_addresses_at:
  assumes "data r = pre @ concat (map (toBeBytes 32) (map addressValue xs)) @ post"
    "offset r = length pre" "list_all BaseEthereumAddressSchema xs"
  shows "unpack_addresses (length xs) r =
           Inr (map getChecksumAddress xs, r\<lparr>offset := length pre + 32 * length xs\<rparr>)"
  using assms
proof (induction xs arbitrary: pre r)
  case Nil
  then show ?case by simp
next
  case (Cons a xs)
  let ?w = "toBeBytes 32 (addressValue a)"
  let ?r' = "r\<lparr>offset := length pre + 32\<rparr>"
  from Cons.prems(1) have d: "data r = pre @ ?w @ (concat (map (toBeBytes 32) (map addressValue xs)) @ post)"
    by simp
  from Cons.prems(3) have a: "BaseEthereumAddressSchema a" and xs: "list_all BaseEthereumAddressSchema xs"
    by simp_all
  have h: "AddressCoder_decode r = Inr (getChecksumAddress a, ?r')"
    by (rule AddressCoder_decode_at[OF d Cons.prems(2) a])
  have d': "data ?r' = (pre @ ?w) @ concat (map (toBeBytes 32) (map addressValue xs)) @ post"
    using d by simp
  have o': "offset ?r' = length (pre @ ?w)" by (simp add: length_toBeBytes)
  have "unpack_addresses (length xs) ?r' =
          Inr (map getChecksumAddress xs, ?r'\<lparr>offset := length (pre @ ?w) + 32 * length xs\<rparr>)"
    by (rule Cons.IH[OF d' o' xs])
  with h show ?case by (simp add: length_toBeBytes)
qed

lemma ArrayCoder_decode_at:
  assumes "data r = abi_array (map addressValue xs) @ post" "offset r = 0"
    "list_all BaseEthereumAddressSchema xs" "int (length xs) \<le> maxValue"
  shows "ArrayCoder_decode r = Inr (map getChecksumAddress xs)"
proof -
  let ?body = "concat (map (toBeBytes 32) (map addressValue xs))"
  let ?r' = "r\<lparr>offset := 32\<rparr>"
  have d: "data r = [] @ toBeBytes 32 (length xs) @ (?body @ post)"
    using assms(1) by (simp add: abi_array_def)
  have i: "readIndex r = Inr (length xs, ?r')"
    using readIndex_at[OF d _ assms(4)] assms(2) by simp
  have d': "data ?r' = toBeBytes 32 (length xs) @ ?body @ post" using d by simp
  have o': "offset ?r' = length (toBeBytes 32 (length xs))" by (simp add: length_toBeBytes)
  have u: "unpack_addresses (length xs) ?r' =
             Inr (map getChecksumAddress xs,
                  ?r'\<lparr>offset := length (toBeBytes 32 (length xs)) + 32 * length xs\<rparr>)"
    by (rule unpack_addresses_at[OF d' o' assms(3)])
  have "length ?body = 32 * length xs"
    using length_concat_words[of "map addressValue xs"] by simp
  then have len: "length xs * 32 \<le> length (data ?r')"
    unfolding d' by (simp only: length_append length_toBeBytes)
  show ?thesis
    unfolding ArrayCoder_decode_def i using len by (simp add: u WordSize_def)
qed

lemma NumberCoder_decode_at:
  assumes "data r = pre @ toBeBytes 32 v @ post" "offset r = length pre" "v < 2 ^ 256"
  shows "NumberCoder_decode sz r = Inr (v mod 2 ^ (8 * sz), r\<lparr>offset := length pre + 32\<rparr>)"
  unfolding NumberCoder_decode_def readValue_at[OF assms] by simp

lemma TupleCoder_decode_layout:
  fixes xs ys :: "string list"
  defines "A1 \<equiv> abi_array (map addressValue xs)" and "A2 \<equiv> abi_array (map addressValue ys)"
  assumes T: "T = toBeBytes 32 d @ toBeBytes 32 m @ toBeBytes 32 128 @
                  toBeBytes 32 (160 + 32 * length xs) @ A1 @ A2"
    and d: "d < 2 ^ 256" and m: "m < 2 ^ 256"
    and xs: "list_all BaseEthereumAddressSchema xs" and ys: "list_all BaseEthereumAddressSchema ys"
    and lx: "int (160 + 32 * length xs) \<le> maxValue" and ly: "int (length ys) \<le> maxValue"
  shows "TupleCoder_decode \<lparr>data = T, offset = 0\<rparr> =
           Inr (d mod 256, m, map getChecksumAddress xs, map getChecksumAddress ys)"
proof -
  let ?R0 = "\<lparr>data = T, offset = 0\<rparr>"
  let ?off = "160 + 32 * length xs"
  have base: "subReader ?R0 0 = ?R0" by (simp add: subReader_def)
  let ?rd = "\<lambda>n. \<lparr>data = T, offset = n\<rparr>"
  have n1: "NumberCoder_decode 1 ?R0 = Inr (d mod 256, ?rd 32)"
    using NumberCoder_decode_at[of ?R0 "[]" d _ 1, OF _ _ d] T by simp
  have n2: "NumberCoder_decode 32 (?rd 32) = Inr (m, ?rd 64)"
    using NumberCoder_decode_at[of "?rd 32" "toBeBytes 32 d" m _ 32, OF _ _ m] T m
    by (simp add: length_toBeBytes)
  have i1: "readIndex (?rd 64) = Inr (128, ?rd 96)"
    using readIndex_at[of "?rd 64" "toBeBytes 32 d @ toBeBytes 32 m" 128] T
    by (simp add: length_toBeBytes maxValue_def)
  have i2: "readIndex (?rd 96) = Inr (?off, ?rd 128)"
    using readIndex_at[of "?rd 96" "toBeBytes 32 d @ toBeBytes 32 m @ toBeBytes 32 128"
        ?off "A1 @ A2", OF _ _ lx] T
    by (simp add: length_toBeBytes)
  have lA1: "length A1 = 32 + 32 * length xs" by (simp add: A1_def length_abi_array)
  have T4: "T = (toBeBytes 32 d @ toBeBytes 32 m @ toBeBytes 32 128 @ toBeBytes 32 ?off) @ A1 @ A2"
    using T by simp
  have d1: "drop 128 T = A1 @ A2"
    unfolding T4 by (simp add: length_toBeBytes)
  have T5: "T = (toBeBytes 32 d @ toBeBytes 32 m @ toBeBytes 32 128 @ toBeBytes 32 ?off @ A1) @ A2"
    using T by simp
  have d2: "drop ?off T = A2"
    unfolding T5 by (simp add: length_toBeBytes lA1)
  have lx': "int (length xs) \<le> maxValue" using lx by simp
  have a1: "ArrayCoder_decode (subReader ?R0 128) = Inr (map getChecksumAddress xs)"
    by (rule ArrayCoder_decode_at[where post = A2, OF _ _ xs lx'])
       (simp_all add: subReader_def d1 A1_def)
  have a2: "ArrayCoder_decode (subReader ?R0 ?off) = Inr (map getChecksumAddress ys)"
    by (rule ArrayCoder_decode_at[where post = "[]", OF _ _ ys ly])
       (simp_all add: subReader_def d2 A2_def)
  show ?thesis
    unfolding TupleCoder_decode_def Let_def base
    by (simp add: n1 n1[unfolded One_nat_def] n2 i1 i2 a1 a2)
qed

lemma abiCoder_decode_bytes_layout:
  assumes d: "d < 2 ^ 256" and m: "m < 2 ^ 256"
    and xs: "list_all BaseEthereumAddressSchema xs" and ys: "list_all BaseEthereumAddressSchema ys"
    and lx: "int (160 + 32 * length xs) \<le> maxValue" and ly: "int (length ys) \<le> maxValue"
  shows "abiCoder_decode_bytes (abi_layout d m (map addressValue xs) (map addressValue ys)) =
           Inr (d mod 256, m, map getChecksumAddress xs, map getChecksumAddress ys)"
proof -
  let ?T = "toBeBytes 32 d @ toBeBytes 32 m @ toBeBytes 32 128 @
            toBeBytes 32 (160 + 32 * length xs) @
            abi_array (map addressValue xs) @ abi_array (map addressValue ys)"
  let ?bs = "abi_layout d m (map addressValue xs) (map addressValue ys)"
  have bs: "?bs = toBeBytes 32 32 @ ?T" by (simp add: abi_layout_def)
  let ?r = "\<lparr>data = ?bs, offset = 0\<rparr>"
  have i: "readIndex ?r = Inr (32, \<lparr>data = ?bs, offset = 32\<rparr>)"
    using readIndex_at[of ?r "[]" 32 ?T] bs by (simp add: maxValue_def)
  have s: "subReader (subReader ?r 0) 32 = \<lparr>data = ?T, offset = 0\<rparr>"
    unfolding subReader_def bs by (simp add: length_toBeBytes)
  have t: "TupleCoder_decode \<lparr>data = ?T, offset = 0\<rparr> =
             Inr (d mod 256, m, map getChecksumAddress xs, map getChecksumAddress ys)"
    by (rule TupleCoder_decode_layout[OF refl d m xs ys lx ly])
  show ?thesis
    by (simp add: abiCoder_decode_bytes_def Let_def i s t)
qed

section \<open>encodePolicy and decodePolicy\<close>

lemma getBigInt_show_int: "getBigInt (show_int i) = Inr i"
proof (cases "i < 0")
  case False
  then have "show_int i = show_nat (nat i)" by (simp add: show_int_def)
  with False show ?thesis using getBigInt_show_nat[of "nat i"] by simp
next
  case True
  let ?s = "show_nat (nat (- i))"
  note n = numeral_hd_last[OF isDecimalNumeral_show_nat[of "nat (- i)"]]
  have h: "take 1 ?s \<noteq> ''-''" by (rule numeral_no_prefix(9)[OF isDecimalNumeral_show_nat])
  have B: "BigInt_string ?s = Some (int (nat (- i)))"
    using BigInt_string_numeral[OF isDecimalNumeral_show_nat[of "nat (- i)"]]
    by (simp only: digitsVal_show_nat)
  have "getBigInt (CHR ''-'' # ?s) = Inr (- int (nat (- i)))"
    unfolding getBigInt_def using h by (simp add: B)
  with True show ?thesis by (simp add: show_int_def)
qed

lemma encodePolicy_Inr_iff:
  "encodePolicy p = Inr s \<longleftrightarrow>
     policySchema_parse p = Inr p \<and>
     (\<exists>scaled d.
        parseUnits (maxAmount p) (parseInt (erc20Decimals p) 0) = Inr scaled \<and>
        getBigInt (erc20Decimals p) = Inr d \<and> 0 \<le> d \<and> d < 256 \<and>
        0 \<le> scaled \<and> scaled < 2 ^ 256 \<and>
        list_all checksum_ok (allowedTokens p) \<and> list_all checksum_ok (allowedRecipients p) \<and>
        160 + 32 * length (allowedTokens p) < 2 ^ 256 \<and> length (allowedRecipients p) < 2 ^ 256 \<and>
        s = hexlify (abi_layout (nat d) (nat scaled)
                       (map addressValue (allowedTokens p))
                       (map addressValue (allowedRecipients p))))"
  (is "?L \<longleftrightarrow> ?V \<and> ?R")
proof (cases "policySchema_parse p")
  case (Inl e)
  then show ?thesis by (simp add: encodePolicy_def)
next
  case (Inr q)
  then have q: "q = p" and ts: "list_all BaseEthereumAddressSchema (allowedTokens p)"
    and rs: "list_all BaseEthereumAddressSchema (allowedRecipients p)"
    by (simp_all add: policySchema_parse_Inr_iff)
  show ?thesis
  proof (cases "parseUnits (maxAmount p) (parseInt (erc20Decimals p) 0)")
    case (Inl e)
    with Inr show ?thesis by (simp add: encodePolicy_def)
  next
    case sc: (Inr scaled)
    have "encodePolicy p = Inr s \<longleftrightarrow>
          (\<exists>bs. abiCoder_encode_bytes (erc20Decimals p, show_int scaled, allowedTokens p, allowedRecipients p)
                 = Inr bs \<and> s = hexlify bs)"
      using Inr sc by (auto simp: encodePolicy_def abiCoder_encode_def split: sum.splits)
    also have "\<dots> \<longleftrightarrow> ?R"
      unfolding abiCoder_encode_bytes_Inr_iff[OF ts rs] sc getBigInt_show_int
      by auto
    finally show ?thesis using Inr q by simp
  qed
qed

lemma FixedNumber_fromString_large_decimals:
  assumes "80 < d"
  shows "FixedNumber_fromString s d = Inl EthersError"
proof -
  have t: "(80 < d) = True" using assms by simp
  show ?thesis
    unfolding FixedNumber_fromString_def Let_def
    by (simp only: t if_True if_cancel)
qed

lemma FixedNumber_fromString_Inr_decimals:
  assumes "FixedNumber_fromString s d = Inr v"
  shows "d \<le> 80"
proof (rule ccontr)
  assume "\<not> d \<le> 80"
  then have "FixedNumber_fromString s d = Inl EthersError"
    by (intro FixedNumber_fromString_large_decimals) simp
  with assms show False by simp
qed

lemma FixedNumber_fromString_numeral_Inr:
  assumes s: "isDecimalNumeral s" and d: "0 \<le> d" and r: "FixedNumber_fromString s d = Inr v"
  shows "v = int (digitsVal 10 s) * 10 ^ nat d"
proof (cases "int (digitsVal 10 s) * 10 ^ nat d < 2 ^ 511")
  case True
  from FixedNumber_fromString_numeral[OF s d FixedNumber_fromString_Inr_decimals[OF r] True] r
  show ?thesis by simp
next
  case False
  note n = numeral_hd_last[OF s]
  have d80: "(80 < d) = False" using FixedNumber_fromString_Inr_decimals[OF r] by simp
  obtain k where k: "padZeros (nat d) [] = replicate k CHR ''0''" "nat d \<le> k"
    using padZeros_form[of "nat d" "[]"] by auto
  have tk: "take (nat d) (padZeros (nat d) []) = replicate (nat d) CHR ''0''"
    using k by (simp add: min_def)
  have dr: "list_all (\<lambda>c. c = CHR ''0'') (drop (nat d) (padZeros (nat d) []))"
    using k by (simp add: list_all_iff)
  have num: "isDecimalNumeral (s @ replicate (nat d) CHR ''0'')"
    using n by (auto simp: isDecimalNumeral_def list_all_iff isRadixDigit_zero)
  have val: "digitsVal 10 (s @ replicate (nat d) CHR ''0'') = digitsVal 10 s * 10 ^ nat d"
    by (simp add: digitsVal_append digitsVal_zeros)
  have neg: "take 1 s \<noteq> ''-''" by (rule numeral_no_prefix(9)[OF s])
  have w: "takeWhile (isRadixDigit 10) s = s" "dropWhile (isRadixDigit 10) s = []"
    using n by (simp_all add: takeWhile_all dropWhile_all)
  have B: "BigInt_string (s @ replicate (nat d) CHR ''0'') = Some (int (digitsVal 10 s) * 10 ^ nat d)"
    using BigInt_string_numeral[OF num] val by simp
  have rng: "(- (2 ^ 511) \<le> int (digitsVal 10 s) * 10 ^ nat d \<and>
             int (digitsVal 10 s) * 10 ^ nat d < 2 ^ 511) = False"
    using False by blast
  have sne: "(s = []) = False" using n by simp
  have "FixedNumber_fromString s d = Inl EthersError"
    unfolding FixedNumber_fromString_def Let_def
    by (simp only: neg w if_False if_True tk dr B rng d80 sne take.simps takeWhile.simps
        dropWhile.simps list.size append_Nil append_Nil2 option.case not_True_eq_False
        not_False_eq_True refl simp_thms length_0_conv add_0_right list.simps)
  with r show ?thesis by simp
qed

lemma parseUnits_numeral_Inr:
  assumes m: "isDecimalNumeral ms" and d: "isDecimalNumeral ds"
    and r: "parseUnits ms (parseInt ds 0) = Inr v"
  shows "v = int (digitsVal 10 ms * 10 ^ digitsVal 10 ds)" "digitsVal 10 ds \<le> 80"
proof -
  from r have f: "FixedNumber_fromString ms (int (digitsVal 10 ds)) = Inr v"
    unfolding parseUnits_def parseInt_numeral(2)[OF d] getNumber_def
    by (simp split: if_splits)
  from FixedNumber_fromString_numeral_Inr[OF m _ f] show "v = int (digitsVal 10 ms * 10 ^ digitsVal 10 ds)"
    by simp
  from FixedNumber_fromString_Inr_decimals[OF f] show "digitsVal 10 ds \<le> 80" by simp
qed

lemma decodePolicy_layout:
  assumes d: "d < 2 ^ 256" and m: "m < 2 ^ 256"
    and xs: "list_all BaseEthereumAddressSchema xs" and ys: "list_all BaseEthereumAddressSchema ys"
    and lx: "int (160 + 32 * length xs) \<le> maxValue" and ly: "int (length ys) \<le> maxValue"
  shows "decodePolicy (hexlify (abi_layout d m (map addressValue xs) (map addressValue ys))) =
           Inr \<lparr>type = ''ERC20Transfer'', version = ''1.0.0'',
                erc20Decimals = show_nat (d mod 256), maxAmount = show_nat m,
                allowedTokens = map getChecksumAddress xs,
                allowedRecipients = map getChecksumAddress ys\<rparr>"
proof -
  let ?q = "\<lparr>type = ''ERC20Transfer'', version = ''1.0.0'',
                erc20Decimals = show_nat (d mod 256), maxAmount = show_nat m,
                allowedTokens = map getChecksumAddress xs,
                allowedRecipients = map getChecksumAddress ys\<rparr>"
  have a: "abiCoder_decode (hexlify (abi_layout d m (map addressValue xs) (map addressValue ys)))
           = Inr (d mod 256, m, map getChecksumAddress xs, map getChecksumAddress ys)"
    unfolding abiCoder_decode_def getBytes_hexlify
    by (simp add: abiCoder_decode_bytes_layout[OF d m xs ys lx ly])
  have r1: "erc20Decimals_refine (show_nat (d mod 256))"
    unfolding erc20Decimals_refine_def parseInt_show_nat by simp
  have r2: "maxAmount_refine (show_nat m)"
    unfolding maxAmount_refine_def parseInt_show_nat by simp
  have r3: "list_all BaseEthereumAddressSchema (map getChecksumAddress xs)"
    using xs by (simp add: list_all_iff checksum_valid)
  have r4: "list_all BaseEthereumAddressSchema (map getChecksumAddress ys)"
    using ys by (simp add: list_all_iff checksum_valid)
  have v: "policySchema_parse ?q = Inr ?q"
    unfolding policySchema_parse_Inr_iff using r1 r2 r3 r4 by simp
  show ?thesis
    unfolding decodePolicy_def a by (simp add: show_int_nat v)
qed

lemma index_bound:
  assumes "n < 2 ^ 32"
  shows "int (160 + 32 * n) \<le> maxValue" "int n \<le> maxValue" "160 + 32 * n < 2 ^ 256" "n < 2 ^ 256"
proof -
  from assms have n: "n < 4294967296" by simp
  then show "int (160 + 32 * n) \<le> maxValue" "int n \<le> maxValue"
    by (simp_all add: maxValue_def)
  have "160 + 32 * n < (2::nat) ^ 64" using n by simp
  also have "(2::nat) ^ 64 < 2 ^ 256" by (rule power_strict_increasing) simp_all
  finally show "160 + 32 * n < 2 ^ 256" .
  then show "n < 2 ^ 256" by simp
qed

lemma encodePolicy_numerals_Inr:
  assumes v: "policySchema_parse p = Inr p'"
    and nd: "isDecimalNumeral (erc20Decimals p)" and nm: "isDecimalNumeral (maxAmount p)"
    and e: "encodePolicy p = Inr s"
  shows "s = hexlify (abi_layout (digitsVal 10 (erc20Decimals p))
                        (digitsVal 10 (maxAmount p) * 10 ^ digitsVal 10 (erc20Decimals p))
                        (map addressValue (allowedTokens p))
                        (map addressValue (allowedRecipients p)))"
    and "digitsVal 10 (erc20Decimals p) \<le> 80"
    and "digitsVal 10 (maxAmount p) * 10 ^ digitsVal 10 (erc20Decimals p) < 2 ^ 256"
proof -
  let ?D = "digitsVal 10 (erc20Decimals p)" and ?M = "digitsVal 10 (maxAmount p)"
  from e obtain scaled d where
    pu: "parseUnits (maxAmount p) (parseInt (erc20Decimals p) 0) = Inr scaled" and
    gd: "getBigInt (erc20Decimals p) = Inr d" and
    sb: "scaled < 2 ^ 256" and
    s: "s = hexlify (abi_layout (nat d) (nat scaled) (map addressValue (allowedTokens p))
                       (map addressValue (allowedRecipients p)))"
    unfolding encodePolicy_Inr_iff by blast
  from gd have d: "d = int ?D" by (simp add: getBigInt_numeral[OF nd])
  from parseUnits_numeral_Inr[OF nm nd pu] have sc: "scaled = int (?M * 10 ^ ?D)" and D: "?D \<le> 80"
    by simp_all
  from s show "s = hexlify (abi_layout ?D (?M * 10 ^ ?D) (map addressValue (allowedTokens p))
                        (map addressValue (allowedRecipients p)))"
    unfolding d sc nat_int .
  from D show "?D \<le> 80" .
  from sb sc have "int (?M * 10 ^ ?D) < 2 ^ 256" by simp
  then show "?M * 10 ^ ?D < 2 ^ 256"
    by (metis of_nat_less_iff of_nat_numeral of_nat_power)
qed

lemma encodePolicy_numerals_success:
  assumes v: "policySchema_parse p = Inr p'"
    and nd: "isDecimalNumeral (erc20Decimals p)" and nm: "isDecimalNumeral (maxAmount p)"
    and D: "digitsVal 10 (erc20Decimals p) \<le> 80"
    and M: "digitsVal 10 (maxAmount p) * 10 ^ digitsVal 10 (erc20Decimals p) < 2 ^ 256"
    and ok: "list_all checksum_ok (allowedTokens p)" "list_all checksum_ok (allowedRecipients p)"
    and len: "length (allowedTokens p) < 2 ^ 32" "length (allowedRecipients p) < 2 ^ 32"
  shows "encodePolicy p =
           Inr (hexlify (abi_layout (digitsVal 10 (erc20Decimals p))
                        (digitsVal 10 (maxAmount p) * 10 ^ digitsVal 10 (erc20Decimals p))
                        (map addressValue (allowedTokens p))
                        (map addressValue (allowedRecipients p))))"
proof -
  let ?D = "digitsVal 10 (erc20Decimals p)" and ?M = "digitsVal 10 (maxAmount p)"
  from v have vp: "policySchema_parse p = Inr p" by (simp add: policySchema_parse_Inr_iff)
  have "int (?M * 10 ^ ?D) < int (2 ^ 256)" using M by (simp only: of_nat_less_iff)
  then have M': "int ?M * 10 ^ ?D < 2 ^ 256" by simp
  have "(2::int) ^ 256 < 2 ^ 511" by (rule power_strict_increasing) simp_all
  with M' have "int ?M * 10 ^ ?D < 2 ^ 511" by (rule less_trans)
  then have b: "int ?M * 10 ^ nat (int ?D) < 2 ^ 511" by (simp only: nat_int)
  have f: "FixedNumber_fromString (maxAmount p) (int ?D) = Inr (int ?M * 10 ^ nat (int ?D))"
    by (rule FixedNumber_fromString_numeral[OF nm _ _ b]) (use D in simp_all)
  have mv: "- maxValue \<le> int ?D \<and> int ?D \<le> maxValue" using D by (simp add: maxValue_def)
  have gn: "getNumber (Some (int ?D)) = Inr (int ?D)"
    unfolding getNumber_def using mv by simp
  have pu: "parseUnits (maxAmount p) (parseInt (erc20Decimals p) 0) = Inr (int ?M * 10 ^ ?D)"
    unfolding parseUnits_def parseInt_numeral(2)[OF nd] gn using f by (simp only: nat_int sum.case)
  have gd: "getBigInt (erc20Decimals p) = Inr (int ?D)" by (rule getBigInt_numeral[OF nd])
  have D0: "0 \<le> int ?D" by simp
  have D256: "int ?D < 256" using D by simp
  have S0: "0 \<le> int ?M * 10 ^ ?D" by simp
  have nn: "nat (int ?M * 10 ^ ?D) = ?M * 10 ^ ?D"
    by (simp add: nat_mult_distrib nat_power_eq)
  have last: "hexlify (abi_layout ?D (?M * 10 ^ ?D) (map addressValue (allowedTokens p))
                        (map addressValue (allowedRecipients p)))
        = hexlify (abi_layout (nat (int ?D)) (nat (int ?M * 10 ^ ?D)) (map addressValue (allowedTokens p))
                        (map addressValue (allowedRecipients p)))"
    by (simp only: nat_int nn)
  show ?thesis
    unfolding encodePolicy_Inr_iff
    using vp pu gd D0 D256 S0 M' ok index_bound(3)[OF len(1)] index_bound(4)[OF len(2)] last
    by blast
qed

lemma roundtrip_numerals:
  assumes v: "policySchema_parse p = Inr p'"
    and nd: "isDecimalNumeral (erc20Decimals p)" and nm: "isDecimalNumeral (maxAmount p)"
    and e: "encodePolicy p = Inr s"
    and len: "length (allowedTokens p) < 2 ^ 32" "length (allowedRecipients p) < 2 ^ 32"
  shows "decodePolicy s =
           Inr \<lparr>type = ''ERC20Transfer'', version = ''1.0.0'',
                erc20Decimals = show_nat (digitsVal 10 (erc20Decimals p)),
                maxAmount = show_nat (digitsVal 10 (maxAmount p) * 10 ^ digitsVal 10 (erc20Decimals p)),
                allowedTokens = map getChecksumAddress (allowedTokens p),
                allowedRecipients = map getChecksumAddress (allowedRecipients p)\<rparr>"
proof -
  let ?D = "digitsVal 10 (erc20Decimals p)" and ?M = "digitsVal 10 (maxAmount p)"
  note E = encodePolicy_numerals_Inr[OF v nd nm e]
  from v have ts: "list_all BaseEthereumAddressSchema (allowedTokens p)"
    and rs: "list_all BaseEthereumAddressSchema (allowedRecipients p)"
    by (simp_all add: policySchema_parse_Inr_iff)
  have D: "?D < 2 ^ 256" using E(2) by (rule le_less_trans) simp
  have m: "?D mod 256 = ?D" using E(2) by simp
  show ?thesis
    unfolding E(1)
    using decodePolicy_layout[OF D E(3) ts rs index_bound(1)[OF len(1)] index_bound(2)[OF len(2)]]
    by (simp only: m)
qed

lemma toBeBytes_zero: "toBeBytes k 0 = replicate k 0"
  by (induction k) (simp_all add: replicate_append_same)

lemma toBeBytes_small:
  assumes "v < 256"
  shows "toBeBytes (Suc k) v = replicate k 0 @ [of_nat v]"
  using assms by (simp add: toBeBytes_zero)

lemma toBeBytes_32_small:
  assumes "v < 256"
  shows "toBeBytes 32 v = replicate 31 0 @ [of_nat v]"
  using toBeBytes_small[OF assms, of 31] by simp

lemma take_drop_word:
  assumes "length pre = n" "length w = 32"
  shows "take 32 (drop n (pre @ w @ post)) = w"
  using assms by simp

lemma abi_layout_words:
  fixes ts rs :: "nat list" and d m :: nat
  defines "bs \<equiv> abi_layout d m ts rs"
  assumes d: "d < 256" and m: "m < 2 ^ 256" and o: "160 + 32 * length ts < 2 ^ 256"
  shows "toBigInt (take 32 bs) = 32"
    and "toBigInt (take 32 (drop 32 bs)) = d"
    and "bs ! 63 = of_nat d"
    and "toBigInt (take 32 (drop 64 bs)) = m"
    and "toBigInt (take 32 (drop 96 bs)) = 128"
    and "toBigInt (take 32 (drop 128 bs)) = 160 + 32 * length ts"
    and "take (32 + 32 * length ts) (drop 160 bs) = abi_array ts"
    and "drop (192 + 32 * length ts) bs = abi_array rs"
    and "length bs = 224 + 32 * length ts + 32 * length rs"
proof -
  let ?W = "toBeBytes 32"
  have L: "length (?W x) = 32" for x by (rule length_toBeBytes)
  have bs: "bs = ?W 32 @ ?W d @ ?W m @ ?W 128 @ ?W (160 + 32 * length ts) @ abi_array ts @ abi_array rs"
    by (simp add: bs_def abi_layout_def)
  have v: "toBigInt (?W x) = x" if "x < 2 ^ 256" for x
    by (rule toBigInt_toBeBytes_small) (use that in simp)
  have d': "d < 2 ^ 256" using d by (rule less_trans) simp
  show "toBigInt (take 32 bs) = 32"
    unfolding bs by (simp add: L v)
  have "take 32 (drop 32 bs) = ?W d"
    unfolding bs using take_drop_word[of "?W 32" 32 "?W d"] by (simp add: L)
  then show "toBigInt (take 32 (drop 32 bs)) = d" by (simp add: v[OF d'])
  have "bs ! 63 = (?W 32 @ ?W d) ! 63"
    unfolding bs by (simp add: nth_append L)
  also have "\<dots> = ?W d ! 31" by (simp add: nth_append L)
  also have "\<dots> = of_nat d" unfolding toBeBytes_32_small[OF d] by (simp add: nth_append)
  finally show "bs ! 63 = of_nat d" .
  have "take 32 (drop 64 bs) = ?W m"
    unfolding bs using take_drop_word[of "?W 32 @ ?W d" 64 "?W m"] by (simp add: L)
  then show "toBigInt (take 32 (drop 64 bs)) = m" by (simp add: v[OF m])
  have "take 32 (drop 96 bs) = ?W 128"
    unfolding bs using take_drop_word[of "?W 32 @ ?W d @ ?W m" 96 "?W 128"] by (simp add: L)
  then show "toBigInt (take 32 (drop 96 bs)) = 128" by (simp add: v)
  have "take 32 (drop 128 bs) = ?W (160 + 32 * length ts)"
    unfolding bs
    using take_drop_word[of "?W 32 @ ?W d @ ?W m @ ?W 128" 128 "?W (160 + 32 * length ts)"]
    by (simp add: L)
  then show "toBigInt (take 32 (drop 128 bs)) = 160 + 32 * length ts" by (simp add: v[OF o])
  have bs5: "bs = (?W 32 @ ?W d @ ?W m @ ?W 128 @ ?W (160 + 32 * length ts)) @ abi_array ts @ abi_array rs"
    unfolding bs by simp
  have "drop 160 bs = abi_array ts @ abi_array rs"
    unfolding bs5 by (simp add: L)
  then show "take (32 + 32 * length ts) (drop 160 bs) = abi_array ts"
    by (simp add: length_abi_array)
  have bs6: "bs = (?W 32 @ ?W d @ ?W m @ ?W 128 @ ?W (160 + 32 * length ts) @ abi_array ts) @ abi_array rs"
    unfolding bs by simp
  show "drop (192 + 32 * length ts) bs = abi_array rs"
    unfolding bs6 by (simp add: L length_abi_array)
  show "length bs = 224 + 32 * length ts + 32 * length rs"
    unfolding bs by (simp add: L length_abi_array)
qed

section \<open>The value that parseUnits computes\<close>

lemma FixedNumber_fromString_unfold:
  fixes s :: string and d :: int
  defines "neg \<equiv> (take 1 s = ''-'')"
  defines "s1 \<equiv> (if neg then tl s else s)"
  defines "whole0 \<equiv> takeWhile (isRadixDigit 10) s1"
  defines "s2 \<equiv> dropWhile (isRadixDigit 10) s1"
  defines "s3 \<equiv> (if take 1 s2 = ''.'' then tl s2 else s2)"
  defines "frac \<equiv> takeWhile (isRadixDigit 10) s3"
  defines "rest \<equiv> dropWhile (isRadixDigit 10) s3"
  shows "FixedNumber_fromString s d =
     (if rest \<noteq> [] \<or> length whole0 + length frac = 0 then Inl EthersError
      else if 80 < d then Inl EthersError
      else if \<not> list_all (\<lambda>c. c = CHR ''0'') (drop (nat d) (padZeros (nat d) frac)) then Inl EthersError
      else (case BigInt_string ((if neg then ''-'' else []) @ (if whole0 = [] then ''0'' else whole0)
                                   @ take (nat d) (padZeros (nat d) frac)) of
              None \<Rightarrow> Inl EthersError
            | Some v \<Rightarrow> if - (2 ^ 511) \<le> v \<and> v < 2 ^ 511 then Inr v else Inl EthersError))"
  unfolding FixedNumber_fromString_def Let_def neg_def s1_def whole0_def s2_def s3_def frac_def rest_def
  by (rule refl)


















section \<open>The sample records\<close>

lemma sample_fields:
  "erc20Decimals sample_policy = ''18''" "maxAmount sample_policy = ''1''"
  "allowedTokens sample_policy = [''0xAAAAAAAAAAAAAAAAAAAAAAAAAAAAAAAAAAAAAAAA'']"
  "allowedRecipients sample_policy = [''0xBBBBBBBBBBBBBBBBBBBBBBBBBBBBBBBBBBBBBBBB'']"
  by (simp_all add: sample_policy_def)

lemma sample_numerals:
  "isDecimalNumeral ''18''" "isDecimalNumeral ''1''" "digitsVal 10 ''18'' = 18" "digitsVal 10 ''1'' = 1"
  by (simp_all add: isDecimalNumeral_def isRadixDigit_def digitVal_def digitsVal_def)

lemma sample_checksum_ok:
  "list_all checksum_ok (allowedTokens sample_policy)"
  "list_all checksum_ok (allowedRecipients sample_policy)"
  by (simp_all add: sample_fields checksum_ok_def mixedCase_def isLowerHex_def)

lemma sample_scaled: "(1::nat) * 10 ^ 18 < 2 ^ 256"
  by simp

lemma sample_encode:
  "encodePolicy sample_policy =
     Inr (hexlify (abi_layout 18 (10 ^ 18)
            (map addressValue (allowedTokens sample_policy))
            (map addressValue (allowedRecipients sample_policy))))"
  using encodePolicy_numerals_success[OF sample_valid, unfolded sample_fields(1,2) sample_numerals(3,4),
      OF sample_numerals(1,2) _ sample_scaled sample_checksum_ok]
  by (simp add: sample_fields)

lemma char_of_eq_iff: "char_of (n::nat) = c \<longleftrightarrow> n mod 256 = of_char c"
  by (metis char_of_char char_of_mod_256 of_char_of)

lemma show_nat_18: "show_nat 18 = ''18''"
  by (simp add: show_nat.simps char_of_eq_iff)

lemma show_nat_scaled: "show_nat 1000000000000000000 = ''1000000000000000000''"
  by (simp add: show_nat.simps char_of_eq_iff)

lemma sample_roundtrip:
  "roundtrip sample_policy =
     Inr \<lparr>type = ''ERC20Transfer'', version = ''1.0.0'',
          erc20Decimals = ''18'', maxAmount = ''1000000000000000000'',
          allowedTokens = map getChecksumAddress (allowedTokens sample_policy),
          allowedRecipients = map getChecksumAddress (allowedRecipients sample_policy)\<rparr>"
proof -
  have l: "length (allowedTokens sample_policy) < 2 ^ 32" "length (allowedRecipients sample_policy) < 2 ^ 32"
    by (simp_all add: sample_fields)
  from roundtrip_numerals[OF sample_valid, unfolded sample_fields(1,2) sample_numerals(3,4),
      OF sample_numerals(1,2) sample_encode l]
  show ?thesis
    unfolding roundtrip_def sample_encode by (simp add: show_nat_18 show_nat_scaled)
qed

lemma large_decimals_valid:
  "policySchema_parse (sample_policy\<lparr>erc20Decimals := ''255''\<rparr>)
     = Inr (sample_policy\<lparr>erc20Decimals := ''255''\<rparr>)"
  by (simp add: policySchema_parse_Inr_iff sample_policy_def js_eval)

lemma large_decimals_encode:
  "encodePolicy (sample_policy\<lparr>erc20Decimals := ''255''\<rparr>) = Inl EthersError"
proof -
  have p: "parseInt ''255'' 0 = Some 255" by (simp add: js_eval)
  have "parseUnits ''1'' (Some 255) = Inl EthersError"
    by (simp add: parseUnits_def getNumber_def maxValue_def FixedNumber_fromString_large_decimals)
  then show ?thesis
    unfolding encodePolicy_def large_decimals_valid
    by (simp add: sample_policy_def p)
qed


lemma leading_zero_roundtrip:
  "roundtrip (sample_policy\<lparr>erc20Decimals := ''018''\<rparr>) =
     Inr \<lparr>type = ''ERC20Transfer'', version = ''1.0.0'',
          erc20Decimals = ''18'', maxAmount = ''1000000000000000000'',
          allowedTokens = map getChecksumAddress (allowedTokens sample_policy),
          allowedRecipients = map getChecksumAddress (allowedRecipients sample_policy)\<rparr>"
proof -
  let ?p = "sample_policy\<lparr>erc20Decimals := ''018''\<rparr>"
  have v: "policySchema_parse ?p = Inr ?p"
    by (simp add: policySchema_parse_Inr_iff sample_policy_def js_eval)
  have f: "erc20Decimals ?p = ''018''" "maxAmount ?p = ''1''"
    "allowedTokens ?p = allowedTokens sample_policy"
    "allowedRecipients ?p = allowedRecipients sample_policy"
    by (simp_all add: sample_policy_def)
  have n: "isDecimalNumeral ''018''" "digitsVal 10 ''018'' = 18"
    by (simp_all add: isDecimalNumeral_def isRadixDigit_def digitVal_def digitsVal_def)
  have l: "length (allowedTokens sample_policy) < 2 ^ 32" "length (allowedRecipients sample_policy) < 2 ^ 32"
    by (simp_all add: sample_fields)
  have e: "encodePolicy ?p =
     Inr (hexlify (abi_layout 18 (10 ^ 18)
            (map addressValue (allowedTokens sample_policy))
            (map addressValue (allowedRecipients sample_policy))))"
    using encodePolicy_numerals_success[OF v, unfolded f n(2) sample_numerals(4),
      OF n(1) sample_numerals(2) _ sample_scaled sample_checksum_ok l]
    by simp
  from roundtrip_numerals[OF v, unfolded f n(2) sample_numerals(4), OF n(1) sample_numerals(2) e l]
  show ?thesis
    unfolding roundtrip_def e by (simp add: show_nat_18 show_nat_scaled)
qed

lemma encodePolicy_bytes_Inr_iff:
  "encodePolicy_bytes p = Inr bs \<longleftrightarrow> encodePolicy p = Inr (hexlify bs)"
proof
  assume "encodePolicy_bytes p = Inr bs"
  then obtain s where s: "encodePolicy p = Inr s" "getBytes s = Inr bs"
    by (auto simp: encodePolicy_bytes_def split: sum.splits)
  from s(1) obtain bs' where "s = hexlify bs'" unfolding encodePolicy_Inr_iff by blast
  with s show "encodePolicy p = Inr (hexlify bs)" by (simp add: getBytes_hexlify)
next
  assume "encodePolicy p = Inr (hexlify bs)"
  then show "encodePolicy_bytes p = Inr bs"
    by (simp add: encodePolicy_bytes_def getBytes_hexlify)
qed

lemma toBigInt_zeros: "toBigInt (replicate k 0 @ xs) = toBigInt xs"
proof -
  have "toBigInt (replicate k 0) = 0"
    using toBigInt_toBeBytes[of k 0] by (simp add: toBeBytes_zero)
  then show ?thesis by (simp add: toBigInt_append)
qed

lemma sample_bytes:
  "encodePolicy_bytes sample_policy =
     Inr (abi_layout 18 (10 ^ 18) (map addressValue (allowedTokens sample_policy))
            (map addressValue (allowedRecipients sample_policy)))"
  unfolding encodePolicy_bytes_Inr_iff by (rule sample_encode)
section \<open>More sample records and byte sequences\<close>

lemma padZeros_short: "length d < n \<Longrightarrow> n \<le> length d + 128 \<Longrightarrow> padZeros n d = d @ Zeros"
  by (subst padZeros.simps, simp, subst padZeros.simps, simp add: Zeros_def)

lemma fraction_parseUnits: "parseUnits ''1.5'' (Some 18) = Inr 1500000000000000000"
proof -
  have pz: "padZeros 18 ''5'' = ''5'' @ Zeros" by (rule padZeros_short) simp_all
  have n: "isDecimalNumeral ''1500000000000000000''"
    by (simp add: isDecimalNumeral_def isRadixDigit_def digitVal_def)
  have dv: "digitsVal 10 ''1500000000000000000'' = 1500000000000000000"
    by (simp add: digitsVal_def digitVal_def)
  have r: "replicate 17 CHR ''0'' = ''00000000000000000''"
    by (simp add: numeral_eq_Suc)
  have t: "take 17 Zeros = ''00000000000000000''"
    by (simp add: Zeros_def r)
  have z: "list_all (\<lambda>c. c = CHR ''0'') (drop 17 Zeros)"
    by (simp add: Zeros_def list_all_iff)
  have b: "BigInt_string ''1500000000000000000'' = Some 1500000000000000000"
    using BigInt_string_numeral[OF n] by (simp only: dv) simp
  show ?thesis
    unfolding parseUnits_def getNumber_def maxValue_def
    by (simp add: FixedNumber_fromString_unfold isRadixDigit_def digitVal_def pz t z b)
qed

lemma fraction_valid: "policySchema_parse fraction_policy = Inr fraction_policy"
  by (simp add: policySchema_parse_Inr_iff fraction_policy_def sample_policy_def js_eval)

lemma fraction_fields:
  "erc20Decimals fraction_policy = ''18''" "maxAmount fraction_policy = ''1.5''"
  "allowedTokens fraction_policy = allowedTokens sample_policy"
  "allowedRecipients fraction_policy = allowedRecipients sample_policy"
  by (simp_all add: fraction_policy_def sample_policy_def)

lemma sample_lengths:
  "160 + 32 * length (allowedTokens sample_policy) < 2 ^ 256"
  "length (allowedRecipients sample_policy) < 2 ^ 256"
  "length (allowedTokens sample_policy) < 2 ^ 32"
  "length (allowedRecipients sample_policy) < 2 ^ 32"
proof -
  show l: "length (allowedTokens sample_policy) < 2 ^ 32"
    "length (allowedRecipients sample_policy) < 2 ^ 32"
    by (simp_all add: sample_fields)
  show "160 + 32 * length (allowedTokens sample_policy) < 2 ^ 256"
    by (rule index_bound(3)[OF l(1)])
  show "length (allowedRecipients sample_policy) < 2 ^ 256"
    by (rule index_bound(4)[OF l(2)])
qed

lemma sample_addresses_valid:
  "list_all BaseEthereumAddressSchema (allowedTokens sample_policy)"
  "list_all BaseEthereumAddressSchema (allowedRecipients sample_policy)"
  using sample_valid by (simp_all add: policySchema_parse_Inr_iff)

lemma fraction_encode:
  "encodePolicy fraction_policy =
     Inr (hexlify (abi_layout 18 1500000000000000000
            (map addressValue (allowedTokens sample_policy))
            (map addressValue (allowedRecipients sample_policy))))"
proof -
  have p: "parseInt ''18'' 0 = Some 18"
    using parseInt_numeral(2)[OF sample_numerals(1)] by (simp add: sample_numerals)
  have g: "getBigInt ''18'' = Inr 18"
    using getBigInt_numeral[OF sample_numerals(1)] by (simp add: sample_numerals)
  have n: "nat 18 = 18" "nat 1500000000000000000 = 1500000000000000000" by simp_all
  show ?thesis
    unfolding encodePolicy_Inr_iff fraction_fields
    apply (rule conjI[OF fraction_valid])
    apply (rule exI[of _ 1500000000000000000], rule exI[of _ 18])
    apply (simp only: p fraction_parseUnits g sample_checksum_ok sample_lengths(1,2) n simp_thms)
    apply simp
    done
qed

lemma show_nat_small:
  "show_nat 0 = ''0''" "show_nat 3 = ''3''" "show_nat 5 = ''5''" "show_nat 16 = ''16''"
  by (simp_all add: show_nat.simps char_of_eq_iff)

lemma show_nat_fraction: "show_nat 1500000000000000000 = ''1500000000000000000''"
  by (simp add: show_nat.simps char_of_eq_iff)

lemma show_nat_hex_scaled: "show_nat 10000000000000000 = ''10000000000000000''"
  by (simp add: show_nat.simps char_of_eq_iff)

lemma sample_decode:
  assumes "d < 256" "m < 2 ^ 256"
  shows "decodePolicy (hexlify (abi_layout d m
            (map addressValue (allowedTokens sample_policy))
            (map addressValue (allowedRecipients sample_policy)))) =
     Inr \<lparr>type = ''ERC20Transfer'', version = ''1.0.0'',
          erc20Decimals = show_nat d, maxAmount = show_nat m,
          allowedTokens = map getChecksumAddress (allowedTokens sample_policy),
          allowedRecipients = map getChecksumAddress (allowedRecipients sample_policy)\<rparr>"
proof -
  have "d < 2 ^ 8" using assms(1) by simp
  also have "(2::nat) ^ 8 < 2 ^ 256" by (rule power_strict_increasing) simp_all
  finally have D: "d < 2 ^ 256" .
  have md: "d mod 256 = d" using assms(1) by simp
  show ?thesis
    using decodePolicy_layout[OF D assms(2) sample_addresses_valid
        index_bound(1)[OF sample_lengths(3)] index_bound(2)[OF sample_lengths(4)]]
    by (simp only: md)
qed

lemma fraction_roundtrip:
  "roundtrip fraction_policy =
     Inr \<lparr>type = ''ERC20Transfer'', version = ''1.0.0'',
          erc20Decimals = ''18'', maxAmount = ''1500000000000000000'',
          allowedTokens = map getChecksumAddress (allowedTokens sample_policy),
          allowedRecipients = map getChecksumAddress (allowedRecipients sample_policy)\<rparr>"
proof -
  have "(1500000000000000000::nat) < 2 ^ 256" by simp
  from sample_decode[OF _ this, of 18] show ?thesis
    unfolding roundtrip_def fraction_encode by (simp add: show_nat_18 show_nat_fraction)
qed

















lemma zeros_words: "k + 32 \<le> 128 \<Longrightarrow> take 32 (drop k (replicate 128 (0::byte))) = replicate 32 0"
  by (simp add: min_def)

lemma toBigInt_zero_word: "toBigInt (replicate 32 0) = 0"
  using toBigInt_zeros[of 32 "[]"] by (simp add: toBigInt_def)

lemma zeros_decode_bytes: "abiCoder_decode_bytes (replicate 128 0) = Inr (0, 0, [], [])"
proof -
  let ?z = "replicate 128 (0::byte)"
  have rv: "\<And>k. k + 32 \<le> 128 \<Longrightarrow>
      readValue \<lparr>data = ?z, offset = k\<rparr> = Inr (0, \<lparr>data = ?z, offset = k + 32\<rparr>)"
    by (simp add: readValue_def readBytes_def WordSize_def zeros_words toBigInt_zero_word)
  have ri: "\<And>k. k + 32 \<le> 128 \<Longrightarrow>
      readIndex \<lparr>data = ?z, offset = k\<rparr> = Inr (0, \<lparr>data = ?z, offset = k + 32\<rparr>)"
    by (simp add: readIndex_def rv getNumber_def maxValue_def)
  have nc: "\<And>k sz. k + 32 \<le> 128 \<Longrightarrow>
      NumberCoder_decode sz \<lparr>data = ?z, offset = k\<rparr> = Inr (0, \<lparr>data = ?z, offset = k + 32\<rparr>)"
    by (simp add: NumberCoder_decode_def rv)
  have ac: "ArrayCoder_decode \<lparr>data = ?z, offset = 0\<rparr> = Inr []"
    by (simp add: ArrayCoder_decode_def ri[of 0, simplified])
  have sr: "\<And>k. subReader \<lparr>data = ?z, offset = 0\<rparr> 0 = \<lparr>data = ?z, offset = 0\<rparr>"
    by (simp add: subReader_def)
  have tc: "TupleCoder_decode \<lparr>data = ?z, offset = 0\<rparr> = Inr (0, 0, [], [])"
    unfolding TupleCoder_decode_def Let_def sr
    by (simp add: nc[of 0, simplified] nc[of 32, simplified] ri[of 64, simplified]
        ri[of 96, simplified] sr ac)
  show ?thesis
    unfolding abiCoder_decode_bytes_def Let_def sr
    by (simp add: ri[of 0, simplified] sr tc)
qed

lemma empty_valid: "policySchema_parse empty_policy = Inr empty_policy"
  by (simp add: policySchema_parse_Inr_iff empty_policy_def js_eval)

lemma zeros_decode: "decodePolicy (hexlify (replicate 128 0)) = Inr empty_policy"
  unfolding decodePolicy_def abiCoder_decode_def getBytes_hexlify
  using empty_valid
  by (simp add: zeros_decode_bytes show_int_def show_nat_small empty_policy_def)

lemma zero_numeral: "isDecimalNumeral ''0''" "digitsVal 10 ''0'' = 0"
  by (simp_all add: isDecimalNumeral_def isRadixDigit_def digitVal_def digitsVal_def)

lemma empty_encode: "encodePolicy_bytes empty_policy = Inr (abi_layout 0 0 [] [])"
proof -
  have f: "erc20Decimals empty_policy = ''0''" "maxAmount empty_policy = ''0''"
    "allowedTokens empty_policy = []" "allowedRecipients empty_policy = []"
    by (simp_all add: empty_policy_def)
  have "encodePolicy empty_policy =
          Inr (hexlify (abi_layout (digitsVal 10 (erc20Decimals empty_policy))
                 (digitsVal 10 (maxAmount empty_policy) * 10 ^ digitsVal 10 (erc20Decimals empty_policy))
                 (map addressValue (allowedTokens empty_policy))
                 (map addressValue (allowedRecipients empty_policy))))"
    by (rule encodePolicy_numerals_success[OF empty_valid]) (simp_all add: f zero_numeral)
  then show ?thesis
    unfolding encodePolicy_bytes_Inr_iff by (simp add: f zero_numeral)
qed

lemma length_abi_layout:
  "length (abi_layout d m ts rs) = 224 + 32 * length ts + 32 * length rs"
  by (simp add: abi_layout_def length_abi_array length_toBeBytes)

lemma wide_decimals_decode:
  "decodePolicy (hexlify (abi_layout 274 1000000000000000000
            (map addressValue (allowedTokens sample_policy))
            (map addressValue (allowedRecipients sample_policy)))) =
     Inr \<lparr>type = ''ERC20Transfer'', version = ''1.0.0'',
          erc20Decimals = ''18'', maxAmount = ''1000000000000000000'',
          allowedTokens = map getChecksumAddress (allowedTokens sample_policy),
          allowedRecipients = map getChecksumAddress (allowedRecipients sample_policy)\<rparr>"
proof -
  have D: "(274::nat) < 2 ^ 256" "(1000000000000000000::nat) < 2 ^ 256" by simp_all
  have md: "(274::nat) mod 256 = 18" by simp
  show ?thesis
    using decodePolicy_layout[OF D sample_addresses_valid
        index_bound(1)[OF sample_lengths(3)] index_bound(2)[OF sample_lengths(4)]]
    by (simp only: md show_nat_18 show_nat_scaled)
qed

section \<open>What a successful decoding has read\<close>

lemma readBytes_Inr_iff:
  "readBytes r = Inr (w, r') \<longleftrightarrow>
     offset r + 32 \<le> length (data r) \<and> w = take 32 (drop (offset r) (data r)) \<and>
     r' = r\<lparr>offset := offset r + 32\<rparr>"
  by (auto simp: readBytes_def WordSize_def)

lemma readValue_Inr_iff:
  "readValue r = Inr (v, r') \<longleftrightarrow>
     offset r + 32 \<le> length (data r) \<and> v = wordAt (data r) (offset r) \<and>
     r' = r\<lparr>offset := offset r + 32\<rparr>"
proof (cases "readBytes r")
  case (Inl e)
  then have "\<not> offset r + 32 \<le> length (data r)"
    by (auto simp: readBytes_def WordSize_def split: if_splits)
  with Inl show ?thesis by (simp add: readValue_def)
next
  case (Inr x)
  obtain w r1 where x: "x = (w, r1)" by (cases x)
  from Inr[unfolded x readBytes_Inr_iff] Inr x show ?thesis
    by (auto simp: readValue_def wordAt_def)
qed

lemma readIndex_Inr_iff:
  "readIndex r = Inr (v, r') \<longleftrightarrow>
     offset r + 32 \<le> length (data r) \<and> v = wordAt (data r) (offset r) \<and>
     int v \<le> maxValue \<and> r' = r\<lparr>offset := offset r + 32\<rparr>"
proof (cases "readValue r")
  case (Inl e)
  then have "\<not> offset r + 32 \<le> length (data r)"
    using readValue_Inr_iff[of r] by (metis old.prod.exhaust sum.distinct(1))
  with Inl show ?thesis by (simp add: readIndex_def)
next
  case (Inr x)
  obtain w r1 where x: "x = (w, r1)" by (cases x)
  have m: "0 \<le> maxValue" by (simp add: maxValue_def)
  from Inr[unfolded x readValue_Inr_iff] Inr x m show ?thesis
    by (auto simp: readIndex_def getNumber_def)
qed

lemma NumberCoder_decode_Inr_iff:
  "NumberCoder_decode sz r = Inr (v, r') \<longleftrightarrow>
     offset r + 32 \<le> length (data r) \<and> v = wordAt (data r) (offset r) mod 2 ^ (8 * sz) \<and>
     r' = r\<lparr>offset := offset r + 32\<rparr>"
proof (cases "readValue r")
  case (Inl e)
  then have "\<not> offset r + 32 \<le> length (data r)"
    using readValue_Inr_iff[of r] by (metis old.prod.exhaust sum.distinct(1))
  with Inl show ?thesis by (simp add: NumberCoder_decode_def)
next
  case (Inr x)
  obtain w r1 where x: "x = (w, r1)" by (cases x)
  from Inr[unfolded x readValue_Inr_iff] Inr x show ?thesis
    by (auto simp: NumberCoder_decode_def)
qed

lemma length_hexBytes: "length (concat (map hexByte bs)) = 2 * length bs"
  by (induction bs) (simp_all add: hexByte_def)

lemma hexBytes_digits: "list_all (isRadixDigit 16) (concat (map hexByte bs))"
  by (induction bs) (simp_all add: hexByte_def isRadixDigit_hexDigit byte_nibbles)

lemma digitsVal_hexBytes: "digitsVal 16 (concat (map hexByte bs)) = toBigInt bs"
proof (induction bs rule: rev_induct)
  case Nil
  show ?case by (simp add: digitsVal_Nil toBigInt_Nil)
next
  case (snoc b bs)
  have "digitsVal 16 (hexByte b) = unat b"
    by (simp add: hexByte_def digitsVal_pair digitVal_hexDigit byte_nibbles)
  with snoc show ?case
    by (simp add: digitsVal_append toBigInt_snoc length_hexBytes hexByte_def)
qed

lemma valid_hex20:
  "BaseEthereumAddressSchema (hexlify (toBeBytes 20 v))"
  "addressValue (hexlify (toBeBytes 20 v)) = v mod 2 ^ 160"
proof -
  have l: "length (concat (map hexByte (toBeBytes 20 v))) = 40"
    by (simp add: length_hexBytes length_toBeBytes)
  show "BaseEthereumAddressSchema (hexlify (toBeBytes 20 v))"
    unfolding BaseEthereumAddressSchema_def hexlify_def using l by (simp add: hexBytes_digits)
  have "(256::nat) ^ 20 = 2 ^ 160" by simp
  then show "addressValue (hexlify (toBeBytes 20 v)) = v mod 2 ^ 160"
    unfolding addressValue_def hexlify_def
    by (simp add: digitsVal_hexBytes toBigInt_toBeBytes)
qed

lemma AddressCoder_decode_Inr:
  assumes "AddressCoder_decode r = Inr (a, r')"
  shows "offset r + 32 \<le> length (data r)" "r' = r\<lparr>offset := offset r + 32\<rparr>"
    "BaseEthereumAddressSchema a" "addressValue a = wordAt (data r) (offset r)"
proof -
  from assms obtain v r1 h where
    rv: "readValue r = Inr (v, r1)" and th: "toBeHex v 20 = Inr h" and ga: "getAddress h = Inr a"
    and r1: "r1 = r'"
    by (auto simp: AddressCoder_decode_def split: sum.splits prod.splits)
  from rv show "offset r + 32 \<le> length (data r)" by (simp add: readValue_Inr_iff)
  from rv r1 show "r' = r\<lparr>offset := offset r + 32\<rparr>" by (simp add: readValue_Inr_iff)
  from th have v: "v < 2 ^ 160" and h: "h = hexlify (toBeBytes 20 v)"
    by (simp_all add: toBeHex_def split: if_splits)
  have vh: "BaseEthereumAddressSchema h" unfolding h by (rule valid_hex20)
  from getAddress_Inr[OF vh ga] have a: "a = getChecksumAddress h" .
  show "BaseEthereumAddressSchema a" unfolding a by (rule checksum_valid[OF vh])
  have "addressValue a = addressValue h" unfolding a by (rule checksum_value[OF vh])
  also have "\<dots> = v mod 2 ^ 160" unfolding h by (rule valid_hex20(2))
  also have "\<dots> = v" by (rule mod_less[OF v])
  finally have "addressValue a = v" .
  with rv show "addressValue a = wordAt (data r) (offset r)" by (simp add: readValue_Inr_iff)
qed

lemma unpack_addresses_Inr:
  "unpack_addresses n r = Inr (as, r') \<Longrightarrow>
     length as = n \<and> r' = r\<lparr>offset := offset r + 32 * n\<rparr> \<and>
     (0 < n \<longrightarrow> offset r + 32 * n \<le> length (data r)) \<and>
     list_all BaseEthereumAddressSchema as \<and>
     (\<forall>i<n. addressValue (as ! i) = wordAt (data r) (offset r + 32 * i))"
proof (induction n arbitrary: r as r')
  case 0
  then show ?case by simp
next
  case (Suc n)
  from Suc.prems obtain a r1 as' where
    ad: "AddressCoder_decode r = Inr (a, r1)" and
    un: "unpack_addresses n r1 = Inr (as', r')" and as: "as = a # as'"
    by (auto split: sum.splits prod.splits)
  note A = AddressCoder_decode_Inr[OF ad]
  note I = Suc.IH[OF un]
  have d1: "data r1 = data r" and o1: "offset r1 = offset r + 32" using A(2) by simp_all
  have len: "length as = Suc n" using I as by simp
  have r': "r' = r\<lparr>offset := offset r + 32 * Suc n\<rparr>"
    using I A(2) by simp
  have bound: "offset r + 32 * Suc n \<le> length (data r)"
  proof (cases "0 < n")
    case True
    with I have "offset r1 + 32 * n \<le> length (data r1)" by simp
    then show ?thesis by (simp add: d1 o1)
  next
    case False
    with A(1) show ?thesis by simp
  qed
  have valid: "list_all BaseEthereumAddressSchema as" using I A(3) as by simp
  have el: "addressValue (as ! i) = wordAt (data r) (offset r + 32 * i)" if "i < Suc n" for i
  proof (cases i)
    case 0
    with A(4) as show ?thesis by simp
  next
    case (Suc j)
    with that have "j < n" by simp
    with I have "addressValue (as' ! j) = wordAt (data r1) (offset r1 + 32 * j)" by simp
    with Suc as show ?thesis by (simp add: d1 o1 add.assoc)
  qed
  from len r' bound valid el show ?case by blast
qed

lemma ArrayCoder_decode_Inr:
  assumes "ArrayCoder_decode r = Inr as"
  shows "offset r + 32 + 32 * length as \<le> length (data r)"
    "wordAt (data r) (offset r) = length as"
    "list_all BaseEthereumAddressSchema as"
    "\<forall>i<length as. addressValue (as ! i) = wordAt (data r) (offset r + 32 + 32 * i)"
proof -
  from assms obtain count r1 r2 where
    ri: "readIndex r = Inr (count, r1)" and un: "unpack_addresses count r1 = Inr (as, r2)"
    by (auto simp: ArrayCoder_decode_def split: sum.splits prod.splits if_splits)
  from ri have b: "offset r + 32 \<le> length (data r)" and c: "count = wordAt (data r) (offset r)"
    and r1: "r1 = r\<lparr>offset := offset r + 32\<rparr>"
    by (simp_all add: readIndex_Inr_iff)
  note U = unpack_addresses_Inr[OF un]
  have l: "length as = count" using U by simp
  show "wordAt (data r) (offset r) = length as" using l c by simp
  show "offset r + 32 + 32 * length as \<le> length (data r)"
  proof (cases "0 < count")
    case True
    with U have "offset r1 + 32 * count \<le> length (data r1)" by simp
    then show ?thesis by (simp add: r1 l)
  next
    case False
    with b l show ?thesis by simp
  qed
  show "list_all BaseEthereumAddressSchema as" using U by simp
  show "\<forall>i<length as. addressValue (as ! i) = wordAt (data r) (offset r + 32 + 32 * i)"
    using U by (simp add: r1 l)
qed

lemma wordAt_drop: "wordAt (drop k bs) j = wordAt bs (k + j)"
  by (simp add: wordAt_def add.commute)

lemma wordAt_bound: "wordAt bs k < 2 ^ 256"
proof -
  have "toBigInt (take 32 (drop k bs)) < 256 ^ length (take 32 (drop k bs))"
    by (rule toBigInt_bound)
  also have "\<dots> \<le> (256::nat) ^ 32" by (rule power_increasing) simp_all
  also have "(256::nat) ^ 32 = 2 ^ 256" by simp
  finally show ?thesis by (simp add: wordAt_def)
qed

lemma drop_bound:
  assumes "a \<le> length (drop k bs)" "0 < a"
  shows "k + a \<le> length (bs :: byte list)"
proof -
  from assms have "a \<le> length bs - k" "0 < a" by simp_all
  then show ?thesis by arith
qed

lemma TupleCoder_decode_Inr:
  assumes "TupleCoder_decode \<lparr>data = T, offset = 0\<rparr> = Inr (d, m, ts, rs)"
  shows "128 \<le> length T" "d = wordAt T 0 mod 256" "m = wordAt T 32"
    "wordAt T 64 + 32 + 32 * length ts \<le> length T"
    "wordAt T (wordAt T 64) = length ts"
    "list_all BaseEthereumAddressSchema ts"
    "\<forall>i<length ts. addressValue (ts ! i) = wordAt T (wordAt T 64 + 32 + 32 * i)"
    "wordAt T 96 + 32 + 32 * length rs \<le> length T"
    "wordAt T (wordAt T 96) = length rs"
    "list_all BaseEthereumAddressSchema rs"
    "\<forall>i<length rs. addressValue (rs ! i) = wordAt T (wordAt T 96 + 32 + 32 * i)"
proof -
  let ?r = "\<lambda>n. \<lparr>data = T, offset = n\<rparr>"
  have base: "subReader (?r 0) 0 = ?r 0" by (simp add: subReader_def)
  from assms obtain r1 r2 off1 r3 off2 r4 where
    n1: "NumberCoder_decode 1 (?r 0) = Inr (d, r1)" and
    n2: "NumberCoder_decode 32 r1 = Inr (m, r2)" and
    i1: "readIndex r2 = Inr (off1, r3)" and
    a1: "ArrayCoder_decode (subReader (?r 0) off1) = Inr ts" and
    i2: "readIndex r3 = Inr (off2, r4)" and
    a2: "ArrayCoder_decode (subReader (?r 0) off2) = Inr rs"
    unfolding TupleCoder_decode_def Let_def base
    by (auto split: sum.splits prod.splits)
  from n1 have r1: "r1 = ?r 32" and d: "d = wordAt T 0 mod 2 ^ 8"
    by (simp_all add: NumberCoder_decode_Inr_iff)
  from n2 have r2: "r2 = ?r 64" and m: "m = wordAt T 32 mod 2 ^ 256"
    by (simp_all add: NumberCoder_decode_Inr_iff r1)
  from i1 have r3: "r3 = ?r 96" and o1: "off1 = wordAt T 64"
    by (simp_all add: readIndex_Inr_iff r2)
  from i2 have b: "128 \<le> length T" and o2: "off2 = wordAt T 96"
    by (simp_all add: readIndex_Inr_iff r3)
  show "128 \<le> length T" by (rule b)
  show "d = wordAt T 0 mod 256" using d by simp
  show "m = wordAt T 32" using m wordAt_bound[of T 32] by simp
  have s: "subReader (?r 0) k = \<lparr>data = drop k T, offset = 0\<rparr>" for k
    by (simp add: subReader_def)
  note A1 = ArrayCoder_decode_Inr[OF a1[unfolded s o1]]
  note A2 = ArrayCoder_decode_Inr[OF a2[unfolded s o2]]
  from A1(1) have "32 + 32 * length ts \<le> length (drop (wordAt T 64) T)" by simp
  from drop_bound[OF this] show "wordAt T 64 + 32 + 32 * length ts \<le> length T" by simp
  from A1(2) show "wordAt T (wordAt T 64) = length ts" by (simp add: wordAt_drop)
  from A1(3) show "list_all BaseEthereumAddressSchema ts" .
  from A1(4) show "\<forall>i<length ts. addressValue (ts ! i) = wordAt T (wordAt T 64 + 32 + 32 * i)"
    by (simp add: wordAt_drop add.assoc)
  from A2(1) have "32 + 32 * length rs \<le> length (drop (wordAt T 96) T)" by simp
  from drop_bound[OF this] show "wordAt T 96 + 32 + 32 * length rs \<le> length T" by simp
  from A2(2) show "wordAt T (wordAt T 96) = length rs" by (simp add: wordAt_drop)
  from A2(3) show "list_all BaseEthereumAddressSchema rs" .
  from A2(4) show "\<forall>i<length rs. addressValue (rs ! i) = wordAt T (wordAt T 96 + 32 + 32 * i)"
    by (simp add: wordAt_drop add.assoc)
qed

lemma abiCoder_decode_bytes_Inr:
  fixes bs :: "byte list"
  defines "off \<equiv> wordAt bs 0"
  assumes "abiCoder_decode_bytes bs = Inr (d, m, ts, rs)"
  shows "off + 128 \<le> length bs" "d = wordAt bs off mod 256" "m = wordAt bs (off + 32)"
    "off + wordAt bs (off + 64) + 32 + 32 * length ts \<le> length bs"
    "wordAt bs (off + wordAt bs (off + 64)) = length ts"
    "list_all BaseEthereumAddressSchema ts"
    "\<forall>i<length ts. addressValue (ts ! i) = wordAt bs (off + wordAt bs (off + 64) + 32 + 32 * i)"
    "off + wordAt bs (off + 96) + 32 + 32 * length rs \<le> length bs"
    "wordAt bs (off + wordAt bs (off + 96)) = length rs"
    "list_all BaseEthereumAddressSchema rs"
    "\<forall>i<length rs. addressValue (rs ! i) = wordAt bs (off + wordAt bs (off + 96) + 32 + 32 * i)"
proof -
  let ?r = "\<lparr>data = bs, offset = 0\<rparr>"
  from assms(2) obtain o' r1 where
    ri: "readIndex ?r = Inr (o', r1)" and
    td: "TupleCoder_decode (subReader (subReader ?r 0) o') = Inr (d, m, ts, rs)"
    unfolding abiCoder_decode_bytes_def Let_def by (auto split: sum.splits prod.splits)
  from ri have o': "o' = off" by (simp add: readIndex_Inr_iff off_def)
  have s: "subReader (subReader ?r 0) o' = \<lparr>data = drop off bs, offset = 0\<rparr>"
    by (simp add: subReader_def o')
  note T = TupleCoder_decode_Inr[OF td[unfolded s]]
  from drop_bound[OF T(1)] show "off + 128 \<le> length bs" by simp
  from T(2) show "d = wordAt bs off mod 256" by (simp add: wordAt_drop)
  from T(3) show "m = wordAt bs (off + 32)" by (simp add: wordAt_drop)
  from drop_bound[OF T(4)] show "off + wordAt bs (off + 64) + 32 + 32 * length ts \<le> length bs"
    by (simp add: wordAt_drop add.assoc)
  from T(5) show "wordAt bs (off + wordAt bs (off + 64)) = length ts" by (simp add: wordAt_drop)
  from T(6) show "list_all BaseEthereumAddressSchema ts" .
  from T(7) show "\<forall>i<length ts. addressValue (ts ! i) = wordAt bs (off + wordAt bs (off + 64) + 32 + 32 * i)"
    by (simp add: wordAt_drop add.assoc)
  from drop_bound[OF T(8)] show "off + wordAt bs (off + 96) + 32 + 32 * length rs \<le> length bs"
    by (simp add: wordAt_drop add.assoc)
  from T(9) show "wordAt bs (off + wordAt bs (off + 96)) = length rs" by (simp add: wordAt_drop)
  from T(10) show "list_all BaseEthereumAddressSchema rs" .
  from T(11) show "\<forall>i<length rs. addressValue (rs ! i) = wordAt bs (off + wordAt bs (off + 96) + 32 + 32 * i)"
    by (simp add: wordAt_drop add.assoc)
qed

lemma getBytes_Inl: "getBytes s = Inl e \<Longrightarrow> e = EthersError"
  by (auto simp: getBytes_def split: if_splits option.splits)

lemma readBytes_Inl: "readBytes r = Inl e \<Longrightarrow> e = EthersError"
  by (auto simp: readBytes_def split: if_splits)

lemma readValue_Inl: "readValue r = Inl e \<Longrightarrow> e = EthersError"
  by (auto simp: readValue_def split: sum.splits prod.splits dest: readBytes_Inl)

lemma getNumber_Inl: "getNumber v = Inl e \<Longrightarrow> e = EthersError"
  by (auto simp: getNumber_def split: option.splits if_splits)

lemma readIndex_Inl: "readIndex r = Inl e \<Longrightarrow> e = EthersError"
  by (auto simp: readIndex_def split: sum.splits prod.splits dest: readValue_Inl getNumber_Inl)

lemma NumberCoder_decode_Inl: "NumberCoder_decode sz r = Inl e \<Longrightarrow> e = EthersError"
  by (auto simp: NumberCoder_decode_def split: sum.splits prod.splits dest: readValue_Inl)

lemma toBeHex_Inl: "toBeHex v w = Inl e \<Longrightarrow> e = EthersError"
  by (auto simp: toBeHex_def split: if_splits)

lemma getAddress_Inl: "getAddress a = Inl e \<Longrightarrow> e = EthersError"
  by (auto simp: getAddress_def Let_def split: if_splits)

lemma AddressCoder_decode_Inl: "AddressCoder_decode r = Inl e \<Longrightarrow> e = EthersError"
  by (auto simp: AddressCoder_decode_def split: sum.splits prod.splits
      dest: readValue_Inl toBeHex_Inl getAddress_Inl)

lemma unpack_addresses_Inl: "unpack_addresses n r = Inl e \<Longrightarrow> e = EthersError"
proof (induction n arbitrary: r)
  case 0
  then show ?case by simp
next
  case (Suc n)
  then show ?case
    by (auto split: sum.splits prod.splits dest: AddressCoder_decode_Inl)
qed

lemma ArrayCoder_decode_Inl: "ArrayCoder_decode r = Inl e \<Longrightarrow> e = EthersError"
  by (auto simp: ArrayCoder_decode_def split: sum.splits prod.splits if_splits
      dest: readIndex_Inl unpack_addresses_Inl)

lemma TupleCoder_decode_Inl: "TupleCoder_decode r = Inl e \<Longrightarrow> e = EthersError"
  unfolding TupleCoder_decode_def Let_def
  by (auto split: sum.splits prod.splits
      dest: NumberCoder_decode_Inl readIndex_Inl ArrayCoder_decode_Inl)

lemma abiCoder_decode_bytes_Inl: "abiCoder_decode_bytes bs = Inl e \<Longrightarrow> e = EthersError"
  unfolding abiCoder_decode_bytes_def Let_def
  by (auto split: sum.splits prod.splits dest: readIndex_Inl TupleCoder_decode_Inl)

lemma abiCoder_decode_Inl: "abiCoder_decode s = Inl e \<Longrightarrow> e = EthersError"
  by (auto simp: abiCoder_decode_def split: sum.splits dest: getBytes_Inl abiCoder_decode_bytes_Inl)

lemma decoded_record_valid:
  assumes "d < 256" "list_all BaseEthereumAddressSchema ts" "list_all BaseEthereumAddressSchema rs"
  shows "policySchema_parse
           \<lparr>type = ''ERC20Transfer'', version = ''1.0.0'',
            erc20Decimals = show_nat d, maxAmount = show_nat m,
            allowedTokens = ts, allowedRecipients = rs\<rparr>
         = Inr \<lparr>type = ''ERC20Transfer'', version = ''1.0.0'',
            erc20Decimals = show_nat d, maxAmount = show_nat m,
            allowedTokens = ts, allowedRecipients = rs\<rparr>"
proof -
  have r1: "erc20Decimals_refine (show_nat d)"
    unfolding erc20Decimals_refine_def parseInt_show_nat using assms(1) by simp
  have r2: "maxAmount_refine (show_nat m)"
    unfolding maxAmount_refine_def parseInt_show_nat by simp
  show ?thesis
    unfolding policySchema_parse_Inr_iff using r1 r2 assms(2,3) by simp
qed

lemma decodePolicy_Inr:
  assumes "decodePolicy s = Inr q"
  shows "\<exists>bs d m ts rs. getBytes s = Inr bs \<and> abiCoder_decode_bytes bs = Inr (d, m, ts, rs) \<and>
           q = \<lparr>type = ''ERC20Transfer'', version = ''1.0.0'',
                erc20Decimals = show_nat d, maxAmount = show_nat m,
                allowedTokens = ts, allowedRecipients = rs\<rparr>"
proof -
  from assms obtain d m ts rs where a: "abiCoder_decode s = Inr (d, m, ts, rs)"
    and p: "policySchema_parse
           \<lparr>type = ''ERC20Transfer'', version = ''1.0.0'',
            erc20Decimals = show_nat d, maxAmount = show_nat m,
            allowedTokens = ts, allowedRecipients = rs\<rparr> = Inr q"
    by (auto simp: decodePolicy_def show_int_nat split: sum.splits prod.splits)
  from a obtain bs where g: "getBytes s = Inr bs" and b: "abiCoder_decode_bytes bs = Inr (d, m, ts, rs)"
    by (auto simp: abiCoder_decode_def split: sum.splits)
  from p have "q = \<lparr>type = ''ERC20Transfer'', version = ''1.0.0'',
            erc20Decimals = show_nat d, maxAmount = show_nat m,
            allowedTokens = ts, allowedRecipients = rs\<rparr>"
    by (simp add: policySchema_parse_Inr_iff)
  with g b show ?thesis by blast
qed

lemma decodePolicy_Inl:
  assumes "decodePolicy s = Inl e"
  shows "e = EthersError"
proof (cases "abiCoder_decode s")
  case (Inl e')
  with assms have "e = e'" by (simp add: decodePolicy_def)
  with abiCoder_decode_Inl[OF Inl] show ?thesis by simp
next
  case (Inr x)
  obtain d m ts rs where x: "x = (d, m, ts, rs)" by (cases x) auto
  from Inr x obtain bs where b: "abiCoder_decode_bytes bs = Inr (d, m, ts, rs)"
    by (auto simp: abiCoder_decode_def split: sum.splits)
  note B = abiCoder_decode_bytes_Inr[OF b]
  have "d < 256" using B(2) by simp
  from decoded_record_valid[OF this B(6) B(10), of m] assms Inr x show ?thesis
    by (simp add: decodePolicy_def show_int_nat)
qed

lemma decodePolicy_hexlify_Inr:
  assumes "decodePolicy (hexlify bs) = Inr q"
  shows "\<exists>d m ts rs. abiCoder_decode_bytes bs = Inr (d, m, ts, rs) \<and>
           q = \<lparr>type = ''ERC20Transfer'', version = ''1.0.0'',
                erc20Decimals = show_nat d, maxAmount = show_nat m,
                allowedTokens = ts, allowedRecipients = rs\<rparr>"
  using decodePolicy_Inr[OF assms] by (auto simp: getBytes_hexlify)

lemma bad_length_prefix_words:
  "length bad_length_prefix = 192" "wordAt bad_length_prefix 0 = 32"
  "wordAt bad_length_prefix 96 = 128" "wordAt bad_length_prefix 160 = 1"
proof -
  let ?W = "toBeBytes 32"
  have L: "length (?W x) = 32" for x by (rule length_toBeBytes)
  have v: "toBigInt (?W x) = x" if "x < 256" for x
    by (rule toBigInt_toBeBytes_small) (rule less_le_trans[OF that], simp)
  show "length bad_length_prefix = 192" by (simp add: bad_length_prefix_def L)
  show "wordAt bad_length_prefix 0 = 32"
    by (simp add: wordAt_def bad_length_prefix_def L v)
  have "take 32 (drop 96 bad_length_prefix) = ?W 128"
    unfolding bad_length_prefix_def
    using take_drop_word[of "?W 32 @ ?W 0 @ ?W 0" 96 "?W 128" "?W 128 @ ?W 1"] by (simp add: L)
  then show "wordAt bad_length_prefix 96 = 128" by (simp add: wordAt_def v)
  have "take 32 (drop 160 bad_length_prefix) = ?W 1"
    unfolding bad_length_prefix_def
    using take_drop_word[of "?W 32 @ ?W 0 @ ?W 0 @ ?W 128 @ ?W 128" 160 "?W 1" "[]"] by (simp add: L)
  then show "wordAt bad_length_prefix 160 = 1" by (simp add: wordAt_def v)
qed
section \<open>The words of an encoding and of a decoded sequence\<close>

lemma abi_layout_wordAt:
  assumes "d < 256" "m < 2 ^ 256" "length ts < 2 ^ 32"
  shows "wordAt (abi_layout d m ts rs) 0 = 32" "wordAt (abi_layout d m ts rs) 32 = d"
    "wordAt (abi_layout d m ts rs) 64 = m"
proof -
  note o = index_bound(3)[OF assms(3)]
  show "wordAt (abi_layout d m ts rs) 0 = 32"
    using abi_layout_words(1)[OF assms(1,2) o, of rs] by (simp add: wordAt_def)
  show "wordAt (abi_layout d m ts rs) 32 = d"
    using abi_layout_words(2)[OF assms(1,2) o, of rs] by (simp add: wordAt_def)
  show "wordAt (abi_layout d m ts rs) 64 = m"
    using abi_layout_words(4)[OF assms(1,2) o, of rs] by (simp add: wordAt_def)
qed

lemma decodePolicy_words_in_bounds:
  assumes "decodePolicy (hexlify bs) = Inr q"
  shows "words_in_bounds bs"
proof -
  from decodePolicy_hexlify_Inr[OF assms] obtain d m ts rs where
    b: "abiCoder_decode_bytes bs = Inr (d, m, ts, rs)" by blast
  note B = abiCoder_decode_bytes_Inr[OF b]
  show ?thesis
    unfolding words_in_bounds_def Let_def
    using B(1) B(4)[folded B(5)] B(8)[folded B(9)] by (intro conjI)
qed

lemma bad_length_prefix_out_of_bounds: "\<not> words_in_bounds bad_length_prefix"
  by (simp add: words_in_bounds_def Let_def bad_length_prefix_words)


section \<open>When the decoder returns\<close>

lemma AddressCoder_decode_ok:
  assumes b: "offset r + 32 \<le> length (data r)" and v: "wordAt (data r) (offset r) < 2 ^ 160"
  shows "\<exists>a. AddressCoder_decode r = Inr (a, r\<lparr>offset := offset r + 32\<rparr>)"
proof -
  let ?v = "wordAt (data r) (offset r)"
  let ?h = "hexlify (toBeBytes 20 ?v)"
  have rv: "readValue r = Inr (?v, r\<lparr>offset := offset r + 32\<rparr>)"
    using b by (simp add: readValue_Inr_iff)
  have vh: "BaseEthereumAddressSchema ?h" by (rule valid_hex20)
  have av: "addressValue ?h = ?v" using valid_hex20(2)[of ?v] v by simp
  have th: "toBeHex ?v 20 = Inr ?h" using v by (simp add: toBeHex_def)
  from toBeHex_address[OF vh] have "toBeHex ?v 20 = Inr (toLowerCase ?h)" by (simp only: av)
  with th have lo: "toLowerCase ?h = ?h" by simp
  from getAddress_lower[OF vh] have ga: "getAddress ?h = Inr (getChecksumAddress ?h)"
    by (simp only: lo)
  show ?thesis
    by (simp add: AddressCoder_decode_def rv th ga)
qed

lemma unpack_addresses_ok:
  "offset r + 32 * n \<le> length (data r) \<Longrightarrow>
   (\<forall>i<n. wordAt (data r) (offset r + 32 * i) < 2 ^ 160) \<Longrightarrow>
   \<exists>as r'. unpack_addresses n r = Inr (as, r')"
proof (induction n arbitrary: r)
  case 0
  then show ?case by simp
next
  case (Suc n)
  let ?r1 = "r\<lparr>offset := offset r + 32\<rparr>"
  from Suc.prems(1) have b: "offset r + 32 \<le> length (data r)" by simp
  from Suc.prems(2) have v: "wordAt (data r) (offset r) < 2 ^ 160" by force
  from AddressCoder_decode_ok[OF b v] obtain a where
    a: "AddressCoder_decode r = Inr (a, ?r1)" by blast
  have b1: "offset ?r1 + 32 * n \<le> length (data ?r1)" using Suc.prems(1) by simp
  have v1: "\<forall>i<n. wordAt (data ?r1) (offset ?r1 + 32 * i) < 2 ^ 160"
  proof (intro allI impI)
    fix i assume "i < n"
    then have "Suc i < Suc n" by simp
    with Suc.prems(2) have "wordAt (data r) (offset r + 32 * Suc i) < 2 ^ 160" by blast
    then show "wordAt (data ?r1) (offset ?r1 + 32 * i) < 2 ^ 160" by (simp add: add.assoc)
  qed
  from Suc.IH[OF b1 v1] obtain as r' where "unpack_addresses n ?r1 = Inr (as, r')" by blast
  with a show ?case by simp
qed

lemma ArrayCoder_decode_ok:
  assumes b: "offset r + 32 + 32 * wordAt (data r) (offset r) \<le> length (data r)"
    and s: "int (wordAt (data r) (offset r)) \<le> maxValue"
    and v: "\<forall>i<wordAt (data r) (offset r). wordAt (data r) (offset r + 32 + 32 * i) < 2 ^ 160"
  shows "\<exists>as. ArrayCoder_decode r = Inr as"
proof -
  let ?n = "wordAt (data r) (offset r)"
  let ?r1 = "r\<lparr>offset := offset r + 32\<rparr>"
  from b have b0: "offset r + 32 \<le> length (data r)" by simp
  have ri: "readIndex r = Inr (?n, ?r1)" using b0 s by (simp add: readIndex_Inr_iff)
  have c: "?n * WordSize \<le> length (data ?r1)" using b by (simp add: WordSize_def)
  have b1: "offset ?r1 + 32 * ?n \<le> length (data ?r1)" using b by simp
  have v1: "\<forall>i<?n. wordAt (data ?r1) (offset ?r1 + 32 * i) < 2 ^ 160" using v by simp
  from unpack_addresses_ok[OF b1 v1] obtain as r' where
    "unpack_addresses ?n ?r1 = Inr (as, r')" by blast
  with ri c show ?thesis by (simp add: ArrayCoder_decode_def)
qed

lemma ArrayCoder_decode_safe:
  assumes "ArrayCoder_decode r = Inr as"
  shows "int (length as) \<le> maxValue"
proof -
  from assms obtain count r1 r2 where
    ri: "readIndex r = Inr (count, r1)" and un: "unpack_addresses count r1 = Inr (as, r2)"
    by (auto simp: ArrayCoder_decode_def split: sum.splits prod.splits if_splits)
  from ri have "int count \<le> maxValue" by (simp add: readIndex_Inr_iff)
  with unpack_addresses_Inr[OF un] show ?thesis by simp
qed

lemma TupleCoder_decode_ok:
  assumes b: "128 \<le> length T"
    and s1: "int (wordAt T 64) \<le> maxValue" and s2: "int (wordAt T 96) \<le> maxValue"
    and b1: "wordAt T 64 + 32 + 32 * wordAt T (wordAt T 64) \<le> length T"
    and n1: "int (wordAt T (wordAt T 64)) \<le> maxValue"
    and v1: "\<forall>i<wordAt T (wordAt T 64). wordAt T (wordAt T 64 + 32 + 32 * i) < 2 ^ 160"
    and b2: "wordAt T 96 + 32 + 32 * wordAt T (wordAt T 96) \<le> length T"
    and n2: "int (wordAt T (wordAt T 96)) \<le> maxValue"
    and v2: "\<forall>i<wordAt T (wordAt T 96). wordAt T (wordAt T 96 + 32 + 32 * i) < 2 ^ 160"
  shows "\<exists>x. TupleCoder_decode \<lparr>data = T, offset = 0\<rparr> = Inr x"
proof -
  let ?r = "\<lambda>n. \<lparr>data = T, offset = n\<rparr>"
  have base: "subReader (?r 0) 0 = ?r 0" by (simp add: subReader_def)
  have s: "subReader (?r 0) k = \<lparr>data = drop k T, offset = 0\<rparr>" for k
    by (simp add: subReader_def)
  have c1: "NumberCoder_decode 1 (?r 0) = Inr (wordAt T 0 mod 2 ^ (8 * 1), ?r 32)"
    using b by (simp add: NumberCoder_decode_Inr_iff)
  have c2: "NumberCoder_decode 32 (?r 32) = Inr (wordAt T 32 mod 2 ^ (8 * 32), ?r 64)"
    using b by (simp add: NumberCoder_decode_Inr_iff)
  have i1: "readIndex (?r 64) = Inr (wordAt T 64, ?r 96)"
    using b s1 by (simp add: readIndex_Inr_iff)
  have i2: "readIndex (?r 96) = Inr (wordAt T 96, ?r 128)"
    using b s2 by (simp add: readIndex_Inr_iff)
  have a: "\<exists>as. ArrayCoder_decode \<lparr>data = drop k T, offset = 0\<rparr> = Inr as"
    if "k + 32 + 32 * wordAt T k \<le> length T" "int (wordAt T k) \<le> maxValue"
      "\<forall>i<wordAt T k. wordAt T (k + 32 + 32 * i) < 2 ^ 160" for k
  proof (rule ArrayCoder_decode_ok)
    show "offset \<lparr>data = drop k T, offset = 0\<rparr> + 32 +
          32 * wordAt (data \<lparr>data = drop k T, offset = 0\<rparr>) (offset \<lparr>data = drop k T, offset = 0\<rparr>)
          \<le> length (data \<lparr>data = drop k T, offset = 0\<rparr>)"
      using that(1) by (simp add: wordAt_drop)
    show "int (wordAt (data \<lparr>data = drop k T, offset = 0\<rparr>) (offset \<lparr>data = drop k T, offset = 0\<rparr>))
          \<le> maxValue"
      using that(2) by (simp add: wordAt_drop)
    show "\<forall>i<wordAt (data \<lparr>data = drop k T, offset = 0\<rparr>) (offset \<lparr>data = drop k T, offset = 0\<rparr>).
            wordAt (data \<lparr>data = drop k T, offset = 0\<rparr>)
              (offset \<lparr>data = drop k T, offset = 0\<rparr> + 32 + 32 * i) < 2 ^ 160"
      using that(3) by (simp add: wordAt_drop add.assoc)
  qed
  from a[OF b1 n1 v1] obtain ts where
    ts: "ArrayCoder_decode \<lparr>data = drop (wordAt T 64) T, offset = 0\<rparr> = Inr ts" by blast
  from a[OF b2 n2 v2] obtain rs where
    rs: "ArrayCoder_decode \<lparr>data = drop (wordAt T 96) T, offset = 0\<rparr> = Inr rs" by blast
  show ?thesis
    unfolding TupleCoder_decode_def Let_def base
    by (simp add: c1[unfolded One_nat_def] c2 i1 i2 s ts rs)
qed

lemma TupleCoder_decode_safe:
  assumes "TupleCoder_decode \<lparr>data = T, offset = 0\<rparr> = Inr (d, m, ts, rs)"
  shows "int (wordAt T 64) \<le> maxValue" "int (wordAt T 96) \<le> maxValue"
    "int (length ts) \<le> maxValue" "int (length rs) \<le> maxValue"
proof -
  let ?r = "\<lambda>n. \<lparr>data = T, offset = n\<rparr>"
  have base: "subReader (?r 0) 0 = ?r 0" by (simp add: subReader_def)
  from assms obtain r1 r2 off1 r3 off2 r4 where
    n1: "NumberCoder_decode 1 (?r 0) = Inr (d, r1)" and
    n2: "NumberCoder_decode 32 r1 = Inr (m, r2)" and
    i1: "readIndex r2 = Inr (off1, r3)" and
    a1: "ArrayCoder_decode (subReader (?r 0) off1) = Inr ts" and
    i2: "readIndex r3 = Inr (off2, r4)" and
    a2: "ArrayCoder_decode (subReader (?r 0) off2) = Inr rs"
    unfolding TupleCoder_decode_def Let_def base
    by (auto split: sum.splits prod.splits)
  from n1 have r1: "r1 = ?r 32" by (simp_all add: NumberCoder_decode_Inr_iff)
  from n2 have r2: "r2 = ?r 64" by (simp_all add: NumberCoder_decode_Inr_iff r1)
  from i1 have r3: "r3 = ?r 96" and o1: "int (wordAt T 64) \<le> maxValue"
    by (simp_all add: readIndex_Inr_iff r2)
  from i2 have o2: "int (wordAt T 96) \<le> maxValue"
    by (simp_all add: readIndex_Inr_iff r3)
  show "int (wordAt T 64) \<le> maxValue" by (rule o1)
  show "int (wordAt T 96) \<le> maxValue" by (rule o2)
  show "int (length ts) \<le> maxValue" by (rule ArrayCoder_decode_safe[OF a1])
  show "int (length rs) \<le> maxValue" by (rule ArrayCoder_decode_safe[OF a2])
qed
section \<open>The byte sequences that decode\<close>

lemma address_words_iff:
  "address_words bs k n \<longleftrightarrow> (\<forall>i<n. wordAt bs (k + 32 * i) < 2 ^ 160)"
  unfolding address_words_def list_all_iff by auto

lemma abiCoder_decode_bytes_ok:
  assumes "layout_readable bs"
  shows "\<exists>x. abiCoder_decode_bytes bs = Inr x"
proof -
  define off where "off = wordAt bs 0"
  define T where "T = drop off bs"
  from assms have
    b: "off + 128 \<le> length bs" and
    b1: "off + wordAt bs (off + 64) + 32 + 32 * wordAt bs (off + wordAt bs (off + 64)) \<le> length bs" and
    b2: "off + wordAt bs (off + 96) + 32 + 32 * wordAt bs (off + wordAt bs (off + 96)) \<le> length bs" and
    s0: "int off \<le> maxValue" and
    s1: "int (wordAt bs (off + 64)) \<le> maxValue" and s2: "int (wordAt bs (off + 96)) \<le> maxValue" and
    n1: "int (wordAt bs (off + wordAt bs (off + 64))) \<le> maxValue" and
    n2: "int (wordAt bs (off + wordAt bs (off + 96))) \<le> maxValue" and
    v1: "\<forall>i<wordAt bs (off + wordAt bs (off + 64)).
           wordAt bs (off + wordAt bs (off + 64) + 32 + 32 * i) < 2 ^ 160" and
    v2: "\<forall>i<wordAt bs (off + wordAt bs (off + 96)).
           wordAt bs (off + wordAt bs (off + 96) + 32 + 32 * i) < 2 ^ 160"
    unfolding layout_readable_def words_in_bounds_def Let_def address_words_iff off_def
    by blast+
  have w: "wordAt T j = wordAt bs (off + j)" for j unfolding T_def by (rule wordAt_drop)
  have lT: "length T = length bs - off" by (simp add: T_def)
  have "\<exists>x. TupleCoder_decode \<lparr>data = T, offset = 0\<rparr> = Inr x"
  proof (rule TupleCoder_decode_ok)
    show "128 \<le> length T" using b by (simp add: lT)
    show "int (wordAt T 64) \<le> maxValue" using s1 by (simp only: w)
    show "int (wordAt T 96) \<le> maxValue" using s2 by (simp only: w)
    show "wordAt T 64 + 32 + 32 * wordAt T (wordAt T 64) \<le> length T"
      using b1 by (simp add: w lT)
    show "int (wordAt T (wordAt T 64)) \<le> maxValue" using n1 by (simp only: w)
    show "\<forall>i<wordAt T (wordAt T 64). wordAt T (wordAt T 64 + 32 + 32 * i) < 2 ^ 160"
      using v1 by (simp add: w add.assoc)
    show "wordAt T 96 + 32 + 32 * wordAt T (wordAt T 96) \<le> length T"
      using b2 by (simp add: w lT)
    show "int (wordAt T (wordAt T 96)) \<le> maxValue" using n2 by (simp only: w)
    show "\<forall>i<wordAt T (wordAt T 96). wordAt T (wordAt T 96 + 32 + 32 * i) < 2 ^ 160"
      using v2 by (simp add: w add.assoc)
  qed
  then obtain x where x: "TupleCoder_decode \<lparr>data = T, offset = 0\<rparr> = Inr x" ..
  let ?r = "\<lparr>data = bs, offset = 0\<rparr>"
  have ri: "readIndex ?r = Inr (off, ?r\<lparr>offset := 32\<rparr>)"
    using b s0 by (simp add: readIndex_Inr_iff off_def)
  have s: "subReader (subReader ?r 0) off = \<lparr>data = T, offset = 0\<rparr>"
    by (simp add: subReader_def T_def)
  show ?thesis
    unfolding abiCoder_decode_bytes_def Let_def by (cases x) (simp add: ri s x)
qed

lemma abiCoder_decode_bytes_safe:
  fixes bs :: "byte list"
  defines "off \<equiv> wordAt bs 0"
  assumes "abiCoder_decode_bytes bs = Inr (d, m, ts, rs)"
  shows "int off \<le> maxValue" "int (wordAt bs (off + 64)) \<le> maxValue"
    "int (wordAt bs (off + 96)) \<le> maxValue"
    "int (length ts) \<le> maxValue" "int (length rs) \<le> maxValue"
proof -
  let ?r = "\<lparr>data = bs, offset = 0\<rparr>"
  from assms(2) obtain o' r1 where
    ri: "readIndex ?r = Inr (o', r1)" and
    td: "TupleCoder_decode (subReader (subReader ?r 0) o') = Inr (d, m, ts, rs)"
    unfolding abiCoder_decode_bytes_def Let_def by (auto split: sum.splits prod.splits)
  from ri have o': "o' = off" and so: "int off \<le> maxValue"
    by (simp_all add: readIndex_Inr_iff off_def)
  have s: "subReader (subReader ?r 0) o' = \<lparr>data = drop off bs, offset = 0\<rparr>"
    by (simp add: subReader_def o')
  note T = TupleCoder_decode_safe[OF td[unfolded s]]
  show "int off \<le> maxValue" by (rule so)
  from T(1) show "int (wordAt bs (off + 64)) \<le> maxValue" by (simp add: wordAt_drop)
  from T(2) show "int (wordAt bs (off + 96)) \<le> maxValue" by (simp add: wordAt_drop)
  show "int (length ts) \<le> maxValue" by (rule T(3))
  show "int (length rs) \<le> maxValue" by (rule T(4))
qed

lemma valid_address_words:
  assumes "list_all BaseEthereumAddressSchema as"
    and "\<forall>i<length as. addressValue (as ! i) = wordAt bs (k + 32 * i)"
  shows "address_words bs k (length as)"
  unfolding address_words_iff
proof (intro allI impI)
  fix i assume i: "i < length as"
  with assms(1) have "BaseEthereumAddressSchema (as ! i)" by (simp add: list_all_length)
  from addressValue_bound[OF this] assms(2) i show "wordAt bs (k + 32 * i) < 2 ^ 160" by simp
qed

lemma decodePolicy_readable:
  assumes "decodePolicy (hexlify bs) = Inr q"
  shows "layout_readable bs"
proof -
  from decodePolicy_hexlify_Inr[OF assms] obtain d m ts rs where
    b: "abiCoder_decode_bytes bs = Inr (d, m, ts, rs)" by blast
  note B = abiCoder_decode_bytes_Inr[OF b]
  note S = abiCoder_decode_bytes_safe[OF b]
  note W = decodePolicy_words_in_bounds[OF assms]
  have a1: "address_words bs (wordAt bs 0 + wordAt bs (wordAt bs 0 + 64) + 32) (length ts)"
    by (rule valid_address_words[OF B(6) B(7)])
  have a2: "address_words bs (wordAt bs 0 + wordAt bs (wordAt bs 0 + 96) + 32) (length rs)"
    by (rule valid_address_words[OF B(10) B(11)])
  show ?thesis
    unfolding layout_readable_def Let_def B(5) B(9)
    using W S a1 a2 by (intro conjI)
qed

lemma decodePolicy_readable_iff:
  "(\<exists>q. decodePolicy (hexlify bs) = Inr q) \<longleftrightarrow> layout_readable bs"
proof
  assume "\<exists>q. decodePolicy (hexlify bs) = Inr q"
  then show "layout_readable bs" using decodePolicy_readable by blast
next
  assume r: "layout_readable bs"
  from abiCoder_decode_bytes_ok[OF r] obtain x where x: "abiCoder_decode_bytes bs = Inr x" ..
  obtain d m ts rs where xx: "x = (d, m, ts, rs)" by (cases x)
  note B = abiCoder_decode_bytes_Inr[OF x[unfolded xx]]
  have d: "d < 256" using B(2) by simp
  from decoded_record_valid[OF d B(6) B(10), of m]
  show "\<exists>q. decodePolicy (hexlify bs) = Inr q"
    unfolding decodePolicy_def abiCoder_decode_def getBytes_hexlify
    by (simp add: x xx show_int_nat)
qed

lemma decodePolicy_fails_iff:
  "decodePolicy (hexlify bs) = Inl EthersError \<longleftrightarrow> \<not> layout_readable bs"
proof (cases "decodePolicy (hexlify bs)")
  case (Inl e)
  from decodePolicy_Inl[OF Inl] Inl have f: "decodePolicy (hexlify bs) = Inl EthersError" by simp
  then have "\<not> (\<exists>q. decodePolicy (hexlify bs) = Inr q)" by simp
  then have "\<not> layout_readable bs" unfolding decodePolicy_readable_iff .
  with f show ?thesis by simp
next
  case (Inr q)
  then have "\<exists>q. decodePolicy (hexlify bs) = Inr q" by blast
  then have "layout_readable bs" unfolding decodePolicy_readable_iff .
  with Inr show ?thesis by simp
qed

lemma zeros_readable: "layout_readable (replicate 128 0)"
  using zeros_decode decodePolicy_readable by blast

lemma decodePolicy_getBytes:
  assumes "getBytes s = Inr bs"
  shows "decodePolicy s = decodePolicy (hexlify bs)"
  unfolding decodePolicy_def abiCoder_decode_def getBytes_hexlify assms ..

section \<open>The claims about validation\<close>

text \<open>
  C7: \<open>validate\<close> (\<open>policySchema.parse\<close>) accepts a record only if \<open>parseInt\<close> reads its
  \<open>erc20Decimals\<close> as an integer between 0 and 255; every record whose \<open>erc20Decimals\<close> is
  \<open>"256"\<close> or \<open>"-1"\<close> is rejected, with the issue of that field.
\<close>

theorem validate_decimals_in_range:
  "(policySchema_parse p = Inr q \<longrightarrow>
      (\<exists>n. parseInt (erc20Decimals p) 10 = Some n \<and> 0 \<le> n \<and> n \<le> 255)) \<and>
   (erc20Decimals p = ''256'' \<or> erc20Decimals p = ''-1'' \<longrightarrow>
      (\<exists>issues. policySchema_parse p = Inl (ZodError issues) \<and>
         Issue (custom ''Invalid decimals format. Must be a non-negative integer not exceeding 255.'')
               [Key ''erc20Decimals''] \<in> set issues))"
proof (intro conjI impI)
  assume "policySchema_parse p = Inr q"
  then have "erc20Decimals_refine (erc20Decimals p)"
    by (simp add: policySchema_parse_Inr_iff)
  then show "\<exists>n. parseInt (erc20Decimals p) 10 = Some n \<and> 0 \<le> n \<and> n \<le> 255"
    by (auto simp: erc20Decimals_refine_def split: option.splits)
next
  assume "erc20Decimals p = ''256'' \<or> erc20Decimals p = ''-1''"
  then have "\<not> erc20Decimals_refine (erc20Decimals p)"
    by (auto simp: js_eval)
  then show "\<exists>issues. policySchema_parse p = Inl (ZodError issues) \<and>
         Issue (custom ''Invalid decimals format. Must be a non-negative integer not exceeding 255.'')
               [Key ''erc20Decimals''] \<in> set issues"
    by (simp add: policySchema_parse_def policySchema_issues_def Let_def)
qed

theorem validate_decimals_in_range_witness:
  "policySchema_parse sample_policy = Inr sample_policy \<and>
   (\<exists>n. parseInt (erc20Decimals sample_policy) 10 = Some n \<and> 0 \<le> n \<and> n \<le> 255) \<and>
   (\<exists>issues. policySchema_parse (sample_policy\<lparr>erc20Decimals := ''256''\<rparr>) = Inl (ZodError issues)) \<and>
   (\<exists>issues. policySchema_parse (sample_policy\<lparr>erc20Decimals := ''-1''\<rparr>) = Inl (ZodError issues))"
proof -
  have a: "\<exists>n. parseInt (erc20Decimals sample_policy) 10 = Some n \<and> 0 \<le> n \<and> n \<le> 255"
    using validate_decimals_in_range [of sample_policy sample_policy] sample_valid by blast
  have b: "\<exists>issues. policySchema_parse (sample_policy\<lparr>erc20Decimals := ''256''\<rparr>) = Inl (ZodError issues)"
    using validate_decimals_in_range [of "sample_policy\<lparr>erc20Decimals := ''256''\<rparr>"] by simp blast
  have c: "\<exists>issues. policySchema_parse (sample_policy\<lparr>erc20Decimals := ''-1''\<rparr>) = Inl (ZodError issues)"
    using validate_decimals_in_range [of "sample_policy\<lparr>erc20Decimals := ''-1''\<rparr>"] by simp blast
  from sample_valid a b c show ?thesis by blast
qed

text \<open>
  C8: the schema accepts the record whose \<open>maxAmount\<close> is \<open>"-0.5"\<close>, a string that denotes
  a negative number: \<open>parseInt\<close> stops at the point and yields \<open>-0\<close>, which passes
  \<open>num >= 0\<close>.
\<close>

theorem validate_accepts_negative_fraction:
  "policySchema_parse (sample_policy\<lparr>maxAmount := ''-0.5''\<rparr>)
     = Inr (sample_policy\<lparr>maxAmount := ''-0.5''\<rparr>)"
  by (simp add: policySchema_parse_Inr_iff sample_policy_def js_eval)

text \<open>
  C9: whenever a record fails validation, the result is a \<open>ZodError\<close> whose first issue is
  at the first field, in the order of the schema, that fails its check; a record with an
  \<open>allowedTokens\<close> entry that is not a well-formed address fails, with an issue at that
  entry; and a record that passes is returned whole, none of its fields offending.
\<close>

theorem validate_failure_names_first_field:
  "((\<forall>q. policySchema_parse p \<noteq> Inr q) \<longrightarrow>
      (\<exists>c k rest more.
         policySchema_parse p = Inl (ZodError (Issue c (Key k # rest) # more)) \<and>
         first_offending p = Some k)) \<and>
   ((\<exists>a \<in> set (allowedTokens p). \<not> BaseEthereumAddressSchema a) \<longrightarrow>
      (\<exists>issues. policySchema_parse p = Inl (ZodError issues) \<and>
         (\<exists>j. Issue invalid_string [Key ''allowedTokens'', Index j] \<in> set issues))) \<and>
   (policySchema_parse p = Inr q \<longrightarrow> q = p \<and> first_offending p = None)"
proof (intro conjI impI)
  assume "\<forall>q. policySchema_parse p \<noteq> Inr q"
  then show "\<exists>c k rest more.
         policySchema_parse p = Inl (ZodError (Issue c (Key k # rest) # more)) \<and>
         first_offending p = Some k"
    by (rule first_issue_names_first_offending)
next
  assume "\<exists>a \<in> set (allowedTokens p). \<not> BaseEthereumAddressSchema a"
  then have "\<not> list_all BaseEthereumAddressSchema (allowedTokens p)"
    by (simp add: list_all_iff)
  from addressArray_issues_hd[OF this, of "''allowedTokens''"]
  show "\<exists>issues. policySchema_parse p = Inl (ZodError issues) \<and>
         (\<exists>j. Issue invalid_string [Key ''allowedTokens'', Index j] \<in> set issues)"
    by (auto simp: policySchema_parse_def policySchema_issues_def Let_def)
next
  assume "policySchema_parse p = Inr q"
  then show "q = p" by (simp add: policySchema_parse_Inr_iff)
next
  assume "policySchema_parse p = Inr q"
  then show "first_offending p = None" by (auto simp: first_offending_None_iff)
qed

theorem validate_failure_names_first_field_witness:
  "(\<exists>c rest more.
      policySchema_parse (sample_policy\<lparr>allowedTokens := [''0x1234'']\<rparr>)
        = Inl (ZodError (Issue c (Key ''allowedTokens'' # rest) # more))) \<and>
   (\<exists>issues. policySchema_parse
        (sample_policy\<lparr>allowedTokens := [''AAAAAAAAAAAAAAAAAAAAAAAAAAAAAAAAAAAAAAAAAA'']\<rparr>)
        = Inl (ZodError issues)) \<and>
   first_offending sample_policy = None"
proof -
  let ?short = "sample_policy\<lparr>allowedTokens := [''0x1234'']\<rparr>"
  let ?noprefix =
    "sample_policy\<lparr>allowedTokens := [''AAAAAAAAAAAAAAAAAAAAAAAAAAAAAAAAAAAAAAAAAA'']\<rparr>"
  have s: "\<exists>a \<in> set (allowedTokens ?short). \<not> BaseEthereumAddressSchema a"
    by (simp add: BaseEthereumAddressSchema_def)
  have n: "\<exists>a \<in> set (allowedTokens ?noprefix). \<not> BaseEthereumAddressSchema a"
    by (simp add: BaseEthereumAddressSchema_def)
  have fs: "first_offending ?short = Some ''allowedTokens''"
    by (simp add: first_offending_def field_checks_def sample_policy_def js_eval)
  have sf: "\<forall>q. policySchema_parse ?short \<noteq> Inr q"
    using s by (simp add: policySchema_parse_Inr_iff)
  from validate_failure_names_first_field [of ?short, THEN conjunct1, THEN mp, OF sf]
  obtain c k rest more where
    e: "policySchema_parse ?short = Inl (ZodError (Issue c (Key k # rest) # more))"
    and k: "first_offending ?short = Some k"
    by blast
  from k fs have "k = ''allowedTokens''" by simp
  with e have A: "\<exists>c rest more. policySchema_parse ?short
        = Inl (ZodError (Issue c (Key ''allowedTokens'' # rest) # more))"
    by blast
  from validate_failure_names_first_field [of ?noprefix, THEN conjunct2, THEN conjunct1, THEN mp, OF n]
  have B: "\<exists>issues. policySchema_parse ?noprefix = Inl (ZodError issues)"
    by blast
  from validate_failure_names_first_field [of sample_policy sample_policy, THEN conjunct2,
      THEN conjunct2, THEN mp, OF sample_valid]
  have C: "first_offending sample_policy = None" by simp
  from A B C show ?thesis by blast
qed

text \<open>
  C10: the record whose \<open>erc20Decimals\<close> is \<open>"12abc"\<close> and whose \<open>maxAmount\<close> is \<open>"1.5"\<close>,
  neither a decimal numeral, is accepted: \<open>parseInt\<close> reads them as 12 and 1.
\<close>

theorem validate_accepts_non_numerals:
  "policySchema_parse (sample_policy\<lparr>erc20Decimals := ''12abc'', maxAmount := ''1.5''\<rparr>)
     = Inr (sample_policy\<lparr>erc20Decimals := ''12abc'', maxAmount := ''1.5''\<rparr>) \<and>
   parseInt ''12abc'' 10 = Some 12 \<and> parseInt ''1.5'' 10 = Some 1 \<and>
   \<not> isDecimalNumeral ''12abc'' \<and> \<not> isDecimalNumeral ''1.5''"
  by (simp add: policySchema_parse_Inr_iff sample_policy_def js_eval isDecimalNumeral_def)
section \<open>The claims about the codec\<close>







text \<open>
  C3, as stated, fails: in the bytes that \<open>encodePolicy\<close> produces for the sample record,
  whose \<open>erc20Decimals\<close> is 18 and whose scaled amount is \<open>10^18\<close>, the byte at offset 0 is
  0 and the bytes at offsets 1 to 32 are the number 8192; they belong to the offset word
  of the tuple.
\<close>

theorem encode_offset0_is_not_decimals:
  "parseInt (erc20Decimals sample_policy) 10 = Some 18 \<and>
   map_sum id (\<lambda>bs. unat (bs ! 0)) (encodePolicy_bytes sample_policy) = Inr 0 \<and>
   map_sum id (\<lambda>bs. toBigInt (take 32 (drop 1 bs))) (encodePolicy_bytes sample_policy) = Inr 8192"
proof -
  let ?ts = "map addressValue (allowedTokens sample_policy)"
  let ?rs = "map addressValue (allowedRecipients sample_policy)"
  let ?bs = "abi_layout 18 (10 ^ 18) ?ts ?rs"
  let ?rest = "toBeBytes 32 (10 ^ 18) @ toBeBytes 32 128 @ toBeBytes 32 (160 + 32 * length ?ts) @
               abi_array ?ts @ abi_array ?rs"
  have w32: "toBeBytes 32 32 = replicate 31 0 @ [32]"
    using toBeBytes_32_small[of 32] by simp
  have w18: "toBeBytes 32 18 = replicate 31 0 @ [18]"
    using toBeBytes_32_small[of 18] by simp
  have "(31::nat) = Suc 30" by simp
  then have r31: "replicate 31 (0::byte) = 0 # replicate 30 0" by (simp only: replicate_Suc)
  have bs: "?bs = (0 # replicate 30 0 @ [32]) @ (0 # replicate 30 0 @ [18]) @ ?rest"
    unfolding abi_layout_def w32 w18 r31 by simp
  have b0: "?bs ! 0 = 0" unfolding bs by simp
  have "take 32 (drop 1 ?bs) = replicate 30 0 @ [32, 0]"
    unfolding bs by simp
  then have b1: "toBigInt (take 32 (drop 1 ?bs)) = 8192"
    by (simp only: toBigInt_zeros) (simp add: toBigInt_def)
  have p: "parseInt (erc20Decimals sample_policy) 10 = Some 18"
    by (simp add: sample_fields parseInt_numeral sample_numerals)
  show ?thesis
    unfolding sample_bytes using b0 b1 p by simp
qed

text \<open>
  C3, as amended: the bytes that \<open>encodePolicy\<close> produces are the standard ABI encoding of
  the argument list \<open>[tuple(uint8, uint256, address[], address[])]\<close>, in words of 32 bytes,
  big-endian: the offset 32 of the tuple at offsets 0 to 31; \<open>erc20Decimals\<close> at offsets 32
  to 63, its one byte at offset 63; the scaled \<open>maxAmount\<close> at offsets 64 to 95; the offsets
  128 and \<open>160 + 32 * n\<close> of the two arrays (from the start of the tuple) at offsets 96 to
  159, where \<open>n\<close> is the number of tokens; then each array as its length followed by one
  word for each address.
\<close>

theorem encode_abi_layout:
  assumes "encodePolicy_bytes p = Inr bs"
  shows "\<exists>d m. getBigInt (erc20Decimals p) = Inr (int d) \<and> d < 256 \<and>
           parseUnits (maxAmount p) (parseInt (erc20Decimals p) 0) = Inr (int m) \<and> m < 2 ^ 256 \<and>
           bs = abi_layout d m (map addressValue (allowedTokens p))
                               (map addressValue (allowedRecipients p)) \<and>
           length bs = 224 + 32 * length (allowedTokens p) + 32 * length (allowedRecipients p) \<and>
           toBigInt (take 32 bs) = 32 \<and>
           toBigInt (take 32 (drop 32 bs)) = d \<and> bs ! 63 = of_nat d \<and>
           toBigInt (take 32 (drop 64 bs)) = m \<and>
           toBigInt (take 32 (drop 96 bs)) = 128 \<and>
           toBigInt (take 32 (drop 128 bs)) = 160 + 32 * length (allowedTokens p) \<and>
           take (32 + 32 * length (allowedTokens p)) (drop 160 bs)
             = abi_array (map addressValue (allowedTokens p)) \<and>
           drop (192 + 32 * length (allowedTokens p)) bs
             = abi_array (map addressValue (allowedRecipients p))"
proof -
  let ?ts = "map addressValue (allowedTokens p)" and ?rs = "map addressValue (allowedRecipients p)"
  from assms have "encodePolicy p = Inr (hexlify bs)" by (simp add: encodePolicy_bytes_Inr_iff)
  then obtain scaled dv where
    pu: "parseUnits (maxAmount p) (parseInt (erc20Decimals p) 0) = Inr scaled" and
    gd: "getBigInt (erc20Decimals p) = Inr dv" and d0: "0 \<le> dv" and d1: "dv < 256" and
    s0: "0 \<le> scaled" and s1: "scaled < 2 ^ 256" and
    off: "160 + 32 * length (allowedTokens p) < 2 ^ 256" and
    h: "hexlify bs = hexlify (abi_layout (nat dv) (nat scaled) ?ts ?rs)"
    unfolding encodePolicy_Inr_iff by blast
  have bs: "bs = abi_layout (nat dv) (nat scaled) ?ts ?rs" by (rule hexlify_inj[OF h])
  have dn: "nat dv < 256" using d0 d1 by simp
  have "int (nat scaled) < int (2 ^ 256)" using s0 s1 by simp
  then have mn: "nat scaled < 2 ^ 256" by (simp only: of_nat_less_iff)
  have off': "160 + 32 * length ?ts < 2 ^ 256" using off by simp
  note W = abi_layout_words[OF dn mn off', of ?rs, folded bs]
  have i: "int (nat dv) = dv" "int (nat scaled) = scaled" using d0 s0 by simp_all
  show ?thesis
    apply (rule exI[of _ "nat dv"], rule exI[of _ "nat scaled"])
    using W gd pu dn mn bs by (simp only: i length_map simp_thms)
qed

theorem encode_abi_layout_witness:
  "\<exists>bs. encodePolicy_bytes sample_policy = Inr bs \<and> length bs = 288 \<and>
        toBigInt (take 32 bs) = 32 \<and> bs ! 63 = 18 \<and>
        toBigInt (take 32 (drop 64 bs)) = 10 ^ 18 \<and>
        toBigInt (take 32 (drop 96 bs)) = 128 \<and> toBigInt (take 32 (drop 128 bs)) = 192"
proof -
  let ?bs = "abi_layout 18 (10 ^ 18) (map addressValue (allowedTokens sample_policy))
               (map addressValue (allowedRecipients sample_policy))"
  have e: "encodePolicy_bytes sample_policy = Inr ?bs"
    unfolding encodePolicy_bytes_Inr_iff by (rule sample_encode)
  from encode_abi_layout[OF e] obtain d m where
    d: "getBigInt (erc20Decimals sample_policy) = Inr (int d)" and
    m: "parseUnits (maxAmount sample_policy) (parseInt (erc20Decimals sample_policy) 0) = Inr (int m)" and
    W: "length ?bs = 224 + 32 * length (allowedTokens sample_policy) + 32 * length (allowedRecipients sample_policy)"
       "toBigInt (take 32 ?bs) = 32" "?bs ! 63 = of_nat d" "toBigInt (take 32 (drop 64 ?bs)) = m"
       "toBigInt (take 32 (drop 96 ?bs)) = 128"
       "toBigInt (take 32 (drop 128 ?bs)) = 160 + 32 * length (allowedTokens sample_policy)"
    by blast
  from d have dv: "d = 18"
    by (simp add: sample_fields getBigInt_numeral sample_numerals)
  have "parseUnits ''1'' (parseInt ''18'' 0) = Inr (int (1 * 10 ^ 18))"
    using encodePolicy_Inr_iff[of sample_policy "hexlify ?bs"] sample_encode
      parseUnits_numeral_Inr(1)[OF sample_numerals(2,1)]
    by (auto simp: sample_fields sample_numerals)
  with m have mv: "m = 10 ^ 18"
    by (simp add: sample_fields)
  from W show ?thesis
    unfolding dv mv
    by (intro exI[of _ ?bs]) (simp add: e sample_fields)
qed




text \<open>
  C5, as stated, fails: \<open>decodePolicy\<close> returns a record for byte sequences that are not
  the encoding of any policy. The sequence of 128 zero bytes decodes to the empty policy,
  whose encoding has 224 bytes and begins with the word 32: the zero offsets make the
  decoder read the head, and both arrays, at the start of the data. And the bytes of the
  sample record with the word \<open>0x0112\<close> in place of the decimals word, which is no
  \<open>uint8\<close>, decode to the decimals 18.
\<close>

theorem decode_accepts_noncanonical:
  "decodePolicy (hexlify (replicate 128 0)) = Inr empty_policy \<and>
   encodePolicy_bytes empty_policy = Inr (abi_layout 0 0 [] []) \<and>
   length (abi_layout 0 0 [] []) = 224 \<and>
   wordAt (abi_layout 0 0 [] []) 0 = 32 \<and> wordAt (replicate 128 0) 0 = 0 \<and>
   map_sum id erc20Decimals
     (decodePolicy (hexlify (abi_layout 274 1000000000000000000
        (map addressValue (allowedTokens sample_policy))
        (map addressValue (allowedRecipients sample_policy))))) = Inr ''18'' \<and>
   map_sum id (\<lambda>bs. wordAt bs 32) (encodePolicy_bytes sample_policy) = Inr 18"
proof -
  let ?ts = "map addressValue (allowedTokens sample_policy)"
  let ?rs = "map addressValue (allowedRecipients sample_policy)"
  have l: "length ?ts < 2 ^ 32" using sample_lengths(3) by simp
  have a: "wordAt (abi_layout 0 0 [] []) 0 = 32"
    by (rule abi_layout_wordAt(1)) simp_all
  have b: "wordAt (replicate 128 0) 0 = 0"
    by (simp add: wordAt_def zeros_words[of 0, simplified] toBigInt_zero_word)
  have c: "wordAt (abi_layout 18 1000000000000000000 ?ts ?rs) 32 = 18"
    by (rule abi_layout_wordAt(2)[OF _ _ l]) simp_all
  show ?thesis
    by (simp add: zeros_decode empty_encode length_abi_layout a b wide_decimals_decode
        sample_bytes c)
qed

text \<open>
  C5, as amended: \<open>decodePolicy\<close> fails, and always with the error of the decoder, never
  with a record, exactly on the strings that are not a byte sequence in hexadecimal and on
  the byte sequences that the decoder cannot read: those in which a word that the layout
  calls for lies outside the data (the head at the offset that the first word gives, and
  for each array its length word and, after it, as many words as the length says), in
  which an offset or a length is not a safe integer, or in which the word of an address
  has more than 160 bits. Among them is every sequence of fewer than 128 bytes, the four
  words of the head. When it returns a record, every word it has built the record from
  lies inside the data, each address word is the number of the address returned, and the
  record is one that the schema accepts. It does not refuse a sequence for not being the
  encoding of a policy.
\<close>

theorem decode_rejects_malformed:
  "(decodePolicy s = Inl e \<longrightarrow> e = EthersError) \<and>
   (getBytes s = Inl e' \<longrightarrow> decodePolicy s = Inl EthersError) \<and>
   (getBytes s = Inr bs' \<longrightarrow> (decodePolicy s = Inl EthersError \<longleftrightarrow> \<not> layout_readable bs')) \<and>
   (length bs < 128 \<longrightarrow> decodePolicy (hexlify bs) = Inl EthersError) \<and>
   (\<not> words_in_bounds bs \<longrightarrow> decodePolicy (hexlify bs) = Inl EthersError) \<and>
   (decodePolicy (hexlify bs) = Inr q \<longrightarrow>
      (let off = wordAt bs 0; o1 = wordAt bs (off + 64); o2 = wordAt bs (off + 96);
           ts = allowedTokens q; rs = allowedRecipients q
       in off + 128 \<le> length bs \<and>
          type q = ''ERC20Transfer'' \<and> version q = ''1.0.0'' \<and>
          erc20Decimals q = show_nat (wordAt bs off mod 256) \<and>
          maxAmount q = show_nat (wordAt bs (off + 32)) \<and>
          wordAt bs (off + o1) = length ts \<and>
          off + o1 + 32 + 32 * length ts \<le> length bs \<and>
          (\<forall>i<length ts. addressValue (ts ! i) = wordAt bs (off + o1 + 32 + 32 * i)) \<and>
          wordAt bs (off + o2) = length rs \<and>
          off + o2 + 32 + 32 * length rs \<le> length bs \<and>
          (\<forall>i<length rs. addressValue (rs ! i) = wordAt bs (off + o2 + 32 + 32 * i)) \<and>
          policySchema_parse q = Inr q))"
proof (intro conjI impI)
  assume "decodePolicy s = Inl e"
  then show "e = EthersError" by (rule decodePolicy_Inl)
next
  assume "getBytes s = Inl e'"
  then show "decodePolicy s = Inl EthersError"
    using getBytes_Inl[of s e'] by (simp add: decodePolicy_def abiCoder_decode_def)
next
  assume g: "getBytes s = Inr bs'"
  show "decodePolicy s = Inl EthersError \<longleftrightarrow> \<not> layout_readable bs'"
    unfolding decodePolicy_getBytes[OF g] by (rule decodePolicy_fails_iff)
next
  assume short: "length bs < 128"
  show "decodePolicy (hexlify bs) = Inl EthersError"
  proof (cases "decodePolicy (hexlify bs)")
    case (Inl e)
    with decodePolicy_Inl[OF Inl] show ?thesis by simp
  next
    case (Inr q)
    from decodePolicy_hexlify_Inr[OF Inr] obtain d m ts rs where
      "abiCoder_decode_bytes bs = Inr (d, m, ts, rs)" by blast
    from abiCoder_decode_bytes_Inr(1)[OF this] short show ?thesis by simp
  qed
next
  assume out: "\<not> words_in_bounds bs"
  show "decodePolicy (hexlify bs) = Inl EthersError"
  proof (cases "decodePolicy (hexlify bs)")
    case (Inl e)
    with decodePolicy_Inl[OF Inl] show ?thesis by simp
  next
    case (Inr q)
    from decodePolicy_words_in_bounds[OF Inr] out show ?thesis by simp
  qed
next
  assume ok: "decodePolicy (hexlify bs) = Inr q"
  from decodePolicy_hexlify_Inr[OF ok] obtain d m ts rs where
    b: "abiCoder_decode_bytes bs = Inr (d, m, ts, rs)" and
    q: "q = \<lparr>type = ''ERC20Transfer'', version = ''1.0.0'',
                erc20Decimals = show_nat d, maxAmount = show_nat m,
                allowedTokens = ts, allowedRecipients = rs\<rparr>"
    by blast
  note B = abiCoder_decode_bytes_Inr[OF b]
  have d: "d < 256" using B(2) by simp
  have v: "policySchema_parse q = Inr q"
    unfolding q by (rule decoded_record_valid[OF d B(6) B(10)])
  have f: "type q = ''ERC20Transfer''" "version q = ''1.0.0''" "erc20Decimals q = show_nat d"
    "maxAmount q = show_nat m" "allowedTokens q = ts" "allowedRecipients q = rs"
    by (simp_all add: q)
  show "let off = wordAt bs 0; o1 = wordAt bs (off + 64); o2 = wordAt bs (off + 96);
           ts = allowedTokens q; rs = allowedRecipients q
       in off + 128 \<le> length bs \<and>
          type q = ''ERC20Transfer'' \<and> version q = ''1.0.0'' \<and>
          erc20Decimals q = show_nat (wordAt bs off mod 256) \<and>
          maxAmount q = show_nat (wordAt bs (off + 32)) \<and>
          wordAt bs (off + o1) = length ts \<and>
          off + o1 + 32 + 32 * length ts \<le> length bs \<and>
          (\<forall>i<length ts. addressValue (ts ! i) = wordAt bs (off + o1 + 32 + 32 * i)) \<and>
          wordAt bs (off + o2) = length rs \<and>
          off + o2 + 32 + 32 * length rs \<le> length bs \<and>
          (\<forall>i<length rs. addressValue (rs ! i) = wordAt bs (off + o2 + 32 + 32 * i)) \<and>
          policySchema_parse q = Inr q"
    unfolding Let_def f
    using B(1) B(2)[symmetric] B(3)[symmetric] B(4,5,7,8,9,11) v
    by (intro conjI) (simp_all only: simp_thms)
qed

theorem decode_rejects_malformed_witness:
  "decodePolicy (hexlify (replicate 127 0)) = Inl EthersError \<and>
   decodePolicy ''zz'' = Inl EthersError \<and>
   \<not> words_in_bounds bad_length_prefix \<and>
   decodePolicy (hexlify bad_length_prefix) = Inl EthersError \<and>
   \<not> layout_readable bad_length_prefix \<and>
   layout_readable (replicate 128 0) \<and>
   (\<exists>q. roundtrip sample_policy = Inr q \<and> policySchema_parse q = Inr q \<and>
        length (allowedTokens q) = 1)"
proof -
  have short: "length (replicate 127 (0::byte)) < 128" by simp
  from decode_rejects_malformed[of _ _ _ _ "replicate 127 0", THEN conjunct2, THEN conjunct2,
      THEN conjunct2, THEN conjunct1, THEN mp, OF short]
  have A: "decodePolicy (hexlify (replicate 127 0)) = Inl EthersError" .
  have nohex: "getBytes ''zz'' = Inl EthersError" by (simp add: getBytes_def)
  from decode_rejects_malformed[of "''zz''" _ EthersError, THEN conjunct2, THEN conjunct1, THEN mp, OF nohex]
  have B: "decodePolicy ''zz'' = Inl EthersError" .
  from decode_rejects_malformed[of _ _ _ _ bad_length_prefix, THEN conjunct2, THEN conjunct2,
      THEN conjunct2, THEN conjunct2, THEN conjunct1, THEN mp, OF bad_length_prefix_out_of_bounds]
  have C: "decodePolicy (hexlify bad_length_prefix) = Inl EthersError" .
  from decode_rejects_malformed[of "hexlify bad_length_prefix" _ _ bad_length_prefix,
      THEN conjunct2, THEN conjunct2, THEN conjunct1, THEN mp, OF getBytes_hexlify]
  have I: "decodePolicy (hexlify bad_length_prefix) = Inl EthersError \<longleftrightarrow>
           \<not> layout_readable bad_length_prefix" .
  from iffD1[OF I C] have E: "\<not> layout_readable bad_length_prefix" .
  from decode_rejects_malformed[of "hexlify (replicate 128 0)" _ _ "replicate 128 0",
      THEN conjunct2, THEN conjunct2, THEN conjunct1, THEN mp, OF getBytes_hexlify]
  have Z: "decodePolicy (hexlify (replicate 128 0)) = Inl EthersError \<longleftrightarrow>
           \<not> layout_readable (replicate 128 0)" .
  have F: "layout_readable (replicate 128 0)"
  proof (rule ccontr)
    assume "\<not> layout_readable (replicate 128 0)"
    from iffD2[OF Z this] zeros_decode show False by simp
  qed
  let ?bs = "abi_layout 18 (10 ^ 18) (map addressValue (allowedTokens sample_policy))
               (map addressValue (allowedRecipients sample_policy))"
  let ?q = "\<lparr>type = ''ERC20Transfer'', version = ''1.0.0'',
          erc20Decimals = ''18'', maxAmount = ''1000000000000000000'',
          allowedTokens = map getChecksumAddress (allowedTokens sample_policy),
          allowedRecipients = map getChecksumAddress (allowedRecipients sample_policy)\<rparr>"
  have ok: "decodePolicy (hexlify ?bs) = Inr ?q"
    using sample_roundtrip unfolding roundtrip_def sample_encode by simp
  from decode_rejects_malformed[of _ _ _ _ ?bs ?q, THEN conjunct2, THEN conjunct2,
        THEN conjunct2, THEN conjunct2, THEN conjunct2, THEN mp, OF ok]
  have "policySchema_parse ?q = Inr ?q" unfolding Let_def by blast
  then have D: "\<exists>q. roundtrip sample_policy = Inr q \<and> policySchema_parse q = Inr q \<and>
        length (allowedTokens q) = 1"
    using sample_roundtrip by (intro exI[of _ ?q]) (simp add: sample_fields)
  from A B bad_length_prefix_out_of_bounds C E F D show ?thesis by (intro conjI)
qed

end
